theory Spec2Isabelle
  imports Main "HOL-Library.Sublist"
begin

section \<open>The event emitter of uvw (src/uvw/emitter.hpp)\<close>

text \<open>
  \<^verbatim>\<open>Emitter<T>\<close> keeps a vector of type-erased handlers, indexed by the
  numeric id of the event type.  A \<^verbatim>\<open>Handler<E>\<close> owns two
  \<^verbatim>\<open>std::list<std::pair<bool, Listener>>\<close>: \<^verbatim>\<open>onceL\<close> and
  \<^verbatim>\<open>onL\<close>.  A \<^verbatim>\<open>Connection\<close> is an iterator into one of these lists, that
  is, the address of a list node.

  The embedding keeps the list nodes in an explicit store, because a connection
  aliases the node it was created for: \<^verbatim>\<open>erase\<close> writes the flag of a node
  through the connection whichever list the node is in at that moment, also the
  local list of a running \<^verbatim>\<open>publish\<close>.  A list is the sequence of the addresses
  of its nodes, front first.  Addresses come from a counter, so a destroyed node
  is never handed out again.
\<close>

subsection \<open>Data\<close>

type_synonym node = nat

text \<open>\<^verbatim>\<open>Connection<E>\<close>: the event type it is declared for and the iterator.\<close>

datatype connection = Connection (ctype: nat) (cnode: node)

text \<open>
  A listener is a \<^verbatim>\<open>std::function<void(E &, T &)>\<close>.  Its two arguments are the
  event, which it may change, and the emitter, of which it can call the public
  members: \<^verbatim>\<open>on\<close>, \<^verbatim>\<open>once\<close>, \<^verbatim>\<open>erase\<close>, \<^verbatim>\<open>clear\<close> and
  \<^verbatim>\<open>clearAll\<close>.  A listener is modelled by a name and the sequence of these
  calls that its body makes, in order.  \<^verbatim>\<open>publish\<close> is a protected member, so a
  body has no call of it; what the owner type \<^verbatim>\<open>T\<close> adds to the emitter, and
  listeners that throw, are outside this model.
\<close>

datatype 'e action =
    On nat "'e listener"
  | Once nat "'e listener"
  | Erase connection
  | Clear nat
  | ClearAll
  | Mutate "'e \<Rightarrow> 'e"
and 'e listener = Listener (name: string) (body: "'e action list")

text \<open>\<^verbatim>\<open>Handler<E>\<close>; \<open>addr\<close> is the address \<^verbatim>\<open>make_unique\<close> returned.\<close>

record handler =
  addr :: nat
  onceL :: "node list"
  onL :: "node list"

text \<open>One invocation of a listener: the node it was stored in, the listener,
  and the value of the event it was handed.\<close>

datatype 'e call = Call (at: node) (callee: "'e listener") (seen: 'e)

text \<open>
  \<^verbatim>\<open>Emitter<T>\<close>: the vector \<open>handlers\<close> (a null \<^verbatim>\<open>unique_ptr\<close> is \<open>None\<close>).
  \<open>nodes\<close> is the store of list nodes (\<^verbatim>\<open>Element = std::pair<bool, Listener>\<close>),
  \<open>fresh\<close> the next node address, \<open>made\<close> the next handler address, and
  \<open>trace\<close> the invocations of listeners so far, oldest first.
\<close>

record 'e emitter =
  handlers :: "handler option list"
  nodes :: "node \<rightharpoonup> bool \<times> 'e listener"
  fresh :: node
  made :: nat
  trace :: "'e call list"

definition Emitter :: "'e emitter" where
  "Emitter = \<lparr>handlers = [], nodes = Map.empty, fresh = 0, made = 0, trace = []\<rparr>"

subsection \<open>The registry\<close>

text \<open>\<^verbatim>\<open>type < handlers.size() && handlers[type]\<close>: the handler of an event type,
  if there is one.\<close>

definition slot :: "nat \<Rightarrow> 'e emitter \<Rightarrow> handler option" where
  "slot t s = (if t < length (handlers s) then handlers s ! t else None)"

definition onL_of :: "nat \<Rightarrow> 'e emitter \<Rightarrow> node list" where
  "onL_of t s = (case slot t s of None \<Rightarrow> [] | Some h \<Rightarrow> onL h)"

definition onceL_of :: "nat \<Rightarrow> 'e emitter \<Rightarrow> node list" where
  "onceL_of t s = (case slot t s of None \<Rightarrow> [] | Some h \<Rightarrow> onceL h)"

text \<open>\<^verbatim>\<open>Emitter::handler<E>()\<close>, lines 83-98.\<close>

definition handler :: "nat \<Rightarrow> 'e emitter \<Rightarrow> 'e emitter" where
  "handler t s =
    (let s1 = (if \<not> t < length (handlers s)
               then s\<lparr>handlers := handlers s @ replicate (t + 1 - length (handlers s)) None\<rparr>
               else s)
     in if handlers s1 ! t = None
        then s1\<lparr>handlers := (handlers s1)[t := Some \<lparr>addr = made s1, onceL = [], onL = []\<rparr>],
                made := made s1 + 1\<rparr>
        else s1)"

text \<open>A member function of the handler of type \<open>t\<close> changes that handler in place.\<close>

definition upd_handler :: "nat \<Rightarrow> (handler \<Rightarrow> handler) \<Rightarrow> 'e emitter \<Rightarrow> 'e emitter" where
  "upd_handler t f s = s\<lparr>handlers := (handlers s)[t := map_option f (handlers s ! t)]\<rparr>"

subsection \<open>The handler\<close>

text \<open>\<^verbatim>\<open>element.first\<close> of the node at an address.\<close>

definition first :: "'e emitter \<Rightarrow> node \<Rightarrow> bool" where
  "first s n = (case nodes s n of None \<Rightarrow> False | Some (b, l) \<Rightarrow> b)"

text \<open>\<^verbatim>\<open>element.first = true\<close>.\<close>

definition tombstone :: "node \<Rightarrow> 'e emitter \<Rightarrow> 'e emitter" where
  "tombstone n s =
    (case nodes s n of None \<Rightarrow> s | Some (b, l) \<Rightarrow> s\<lparr>nodes := (nodes s)(n \<mapsto> (True, l))\<rparr>)"

text \<open>\<^verbatim>\<open>Handler::empty\<close>, lines 39-44.\<close>

definition Handler_empty :: "nat \<Rightarrow> 'e emitter \<Rightarrow> bool" where
  "Handler_empty t s = (list_all (first s) (onceL_of t s) \<and> list_all (first s) (onL_of t s))"

text \<open>\<^verbatim>\<open>Handler::clear\<close>, lines 46-50.\<close>

definition Handler_clear :: "nat \<Rightarrow> 'e emitter \<Rightarrow> 'e emitter" where
  "Handler_clear t s = fold tombstone (onL_of t s) (fold tombstone (onceL_of t s) s)"

text \<open>\<^verbatim>\<open>Handler::once\<close>, lines 52-54: a new node at the back of \<open>onceL\<close>.\<close>

definition Handler_once :: "nat \<Rightarrow> 'e listener \<Rightarrow> 'e emitter \<Rightarrow> connection \<times> 'e emitter" where
  "Handler_once t f s =
    (let n = fresh s
     in (Connection t n,
         upd_handler t (\<lambda>h. h\<lparr>onceL := onceL h @ [n]\<rparr>)
           (s\<lparr>nodes := (nodes s)(n \<mapsto> (False, f)), fresh := n + 1\<rparr>)))"

text \<open>\<^verbatim>\<open>Handler::on\<close>, lines 56-58: a new node at the front of \<open>onL\<close>.\<close>

definition Handler_on :: "nat \<Rightarrow> 'e listener \<Rightarrow> 'e emitter \<Rightarrow> connection \<times> 'e emitter" where
  "Handler_on t f s =
    (let n = fresh s
     in (Connection t n,
         upd_handler t (\<lambda>h. h\<lparr>onL := n # onL h\<rparr>)
           (s\<lparr>nodes := (nodes s)(n \<mapsto> (False, f)), fresh := n + 1\<rparr>)))"

text \<open>\<^verbatim>\<open>Handler::erase\<close>, lines 60-62: \<^verbatim>\<open>conn->first = true\<close>.  The iterator is
  dereferenced unchecked; when its node has been destroyed the behaviour is
  undefined, which is the result \<open>None\<close>.\<close>

definition Handler_erase :: "connection \<Rightarrow> 'e emitter \<Rightarrow> 'e emitter option" where
  "Handler_erase conn s =
    (case nodes s (cnode conn) of
       None \<Rightarrow> None
     | Some (b, l) \<Rightarrow> Some (s\<lparr>nodes := (nodes s)(cnode conn \<mapsto> (True, l))\<rparr>))"

subsection \<open>The public members, without publish\<close>

definition on :: "nat \<Rightarrow> 'e listener \<Rightarrow> 'e emitter \<Rightarrow> connection \<times> 'e emitter" where
  "on t f s = Handler_on t f (handler t s)"

definition once :: "nat \<Rightarrow> 'e listener \<Rightarrow> 'e emitter \<Rightarrow> connection \<times> 'e emitter" where
  "once t f s = Handler_once t f (handler t s)"

definition erase :: "connection \<Rightarrow> 'e emitter \<Rightarrow> 'e emitter option" where
  "erase conn s = Handler_erase conn (handler (ctype conn) s)"

definition clear :: "nat \<Rightarrow> 'e emitter \<Rightarrow> 'e emitter" where
  "clear t s = Handler_clear t (handler t s)"

text \<open>\<^verbatim>\<open>clearAll\<close>, lines 197-200: every handler that exists is cleared, in the
  order of the vector.\<close>

definition clearAll :: "'e emitter \<Rightarrow> 'e emitter" where
  "clearAll s =
    fold (\<lambda>t s'. if handlers s' ! t = None then s' else Handler_clear t s')
      [0 ..< length (handlers s)] s"

text \<open>\<^verbatim>\<open>empty<E>()\<close>, lines 207-214.\<close>

definition empty_type :: "nat \<Rightarrow> 'e emitter \<Rightarrow> bool" where
  "empty_type t s =
    (\<not> t < length (handlers s) \<or> handlers s ! t = None \<or> Handler_empty t s)"

text \<open>\<^verbatim>\<open>empty()\<close>, lines 221-224.\<close>

definition empty_all :: "'e emitter \<Rightarrow> bool" where
  "empty_all s =
    list_all (\<lambda>t. handlers s ! t = None \<or> Handler_empty t s) [0 ..< length (handlers s)]"

subsection \<open>Running a listener\<close>

fun step :: "'e action \<Rightarrow> 'e \<Rightarrow> 'e emitter \<Rightarrow> ('e \<times> 'e emitter) option" where
  "step (On t f) ev s = Some (ev, snd (on t f s))"
| "step (Once t f) ev s = Some (ev, snd (once t f s))"
| "step (Erase c) ev s = map_option (Pair ev) (erase c s)"
| "step (Clear t) ev s = Some (ev, clear t s)"
| "step ClearAll ev s = Some (ev, clearAll s)"
| "step (Mutate g) ev s = Some (g ev, s)"

fun run :: "'e action list \<Rightarrow> 'e \<Rightarrow> 'e emitter \<Rightarrow> ('e \<times> 'e emitter) option" where
  "run [] ev s = Some (ev, s)"
| "run (a # as) ev s =
    (case step a ev s of None \<Rightarrow> None | Some (ev', s') \<Rightarrow> run as ev' s')"

text \<open>\<^verbatim>\<open>element.second(event, ref)\<close>: the call is recorded, then the body runs.\<close>

definition invoke :: "node \<Rightarrow> 'e listener \<Rightarrow> 'e \<Rightarrow> 'e emitter \<Rightarrow> ('e \<times> 'e emitter) option" where
  "invoke n f ev s = run (body f) ev (s\<lparr>trace := trace s @ [Call n f ev]\<rparr>)"

text \<open>The lambda \<^verbatim>\<open>func\<close> of \<^verbatim>\<open>Handler::publish\<close>, lines 68-70, applied to the
  element at an address.\<close>

definition func :: "node \<Rightarrow> 'e \<Rightarrow> 'e emitter \<Rightarrow> ('e \<times> 'e emitter) option" where
  "func n ev s =
    (case nodes s n of
       None \<Rightarrow> None
     | Some (b, f) \<Rightarrow> if b then Some (ev, s) else invoke n f ev s)"

subsection \<open>Reverse iteration over a live list\<close>

text \<open>
  An iterator of a \<^verbatim>\<open>std::list\<close> is the address of a node, or \<^verbatim>\<open>end()\<close>
  (\<open>None\<close>).  A \<^verbatim>\<open>reverse_iterator\<close> holds an iterator \<^verbatim>\<open>current\<close>;
  dereferencing it yields the element before \<^verbatim>\<open>current\<close>, incrementing it
  decrements \<^verbatim>\<open>current\<close>, and two reverse iterators are equal when their
  \<^verbatim>\<open>current\<close> are.  \<^verbatim>\<open>rbegin()\<close> holds \<^verbatim>\<open>end()\<close> and \<^verbatim>\<open>rend()\<close> holds
  \<^verbatim>\<open>begin()\<close>.
\<close>

type_synonym iter = "node option"

text \<open>\<^verbatim>\<open>begin()\<close>.\<close>

definition begin_it :: "node list \<Rightarrow> iter" where
  "begin_it xs = (case xs of [] \<Rightarrow> None | x # _ \<Rightarrow> Some x)"

text \<open>The node before node \<open>c\<close> in a list; \<open>None\<close> when \<open>c\<close> is the first node or
  is not in the list.\<close>

fun before :: "node \<Rightarrow> node list \<Rightarrow> node option" where
  "before c [] = None"
| "before c [x] = None"
| "before c (x # y # ys) = (if y = c then Some x else before c (y # ys))"

text \<open>\<^verbatim>\<open>--it\<close> on the list as it is now; \<open>None\<close> when there is nothing before
  \<open>it\<close>.\<close>

definition decr :: "node list \<Rightarrow> iter \<Rightarrow> node option" where
  "decr xs it =
    (case it of
       None \<Rightarrow> (if xs = [] then None else Some (last xs))
     | Some c \<Rightarrow> before c xs)"

text \<open>
  \<^verbatim>\<open>std::for_each(first, last, func)\<close> on reverse iterators:
  \<^verbatim>\<open>for (; first != last; ++first) func(*first);\<close>.  \<open>lst\<close> reads the list out of
  the emitter, so that each step sees the changes the listeners made; \<open>stop\<close>
  (the argument \<^verbatim>\<open>last\<close>) was computed before the loop.  The result is \<open>None\<close> when the behaviour is
  undefined or the loop does not end.
\<close>

partial_function (option) for_each_rev ::
  "('e emitter \<Rightarrow> node list) \<Rightarrow> iter \<Rightarrow> iter \<Rightarrow> 'e \<Rightarrow> 'e emitter \<Rightarrow> ('e \<times> 'e emitter) option"
where
  "for_each_rev lst stop cur ev s =
    (if cur = stop then Some (ev, s)
     else case decr (lst s) cur of
       None \<Rightarrow> None
     | Some n \<Rightarrow>
        (case func n ev s of
           None \<Rightarrow> None
         | Some (ev', s') \<Rightarrow>
            (case decr (lst s') cur of
               None \<Rightarrow> None
             | Some m \<Rightarrow> for_each_rev lst stop (Some m) ev' s')))"

subsection \<open>Publish\<close>

text \<open>Destroying list nodes.\<close>

definition release :: "node list \<Rightarrow> 'e emitter \<Rightarrow> 'e emitter" where
  "release ns s = s\<lparr>nodes := (\<lambda>n. if n \<in> set ns then None else nodes s n)\<rparr>"

text \<open>\<^verbatim>\<open>onL.remove_if([](auto &&element){ return element.first; })\<close>, line 75.\<close>

definition remove_if :: "nat \<Rightarrow> 'e emitter \<Rightarrow> 'e emitter" where
  "remove_if t s =
    release (filter (first s) (onL_of t s))
      (upd_handler t (\<lambda>h. h\<lparr>onL := filter (\<lambda>n. \<not> first s n) (onL h)\<rparr>) s)"

text \<open>\<^verbatim>\<open>Handler::publish\<close>, lines 64-76.  \<open>currentL\<close> is the local list; it is
  destroyed with its nodes when the function returns.\<close>

definition Handler_publish :: "nat \<Rightarrow> 'e \<Rightarrow> 'e emitter \<Rightarrow> 'e emitter option" where
  "Handler_publish t event s =
    (let currentL = onceL_of t s;
         s0 = upd_handler t (\<lambda>h. h\<lparr>onceL := []\<rparr>) s
     in case for_each_rev (onL_of t) (begin_it (onL_of t s0)) None event s0 of
          None \<Rightarrow> None
        | Some (ev1, s1) \<Rightarrow>
           (case for_each_rev (\<lambda>_. currentL) (begin_it currentL) None ev1 s1 of
              None \<Rightarrow> None
            | Some (ev2, s2) \<Rightarrow> Some (release currentL (remove_if t s2))))"

text \<open>\<^verbatim>\<open>Emitter::publish<E>\<close>, lines 101-104.\<close>

definition publish :: "nat \<Rightarrow> 'e \<Rightarrow> 'e emitter \<Rightarrow> 'e emitter option" where
  "publish t event s = Handler_publish t event (handler t s)"

subsection \<open>Sequences of calls from outside\<close>

datatype 'e op =
    OpOn nat "'e listener"
  | OpOnce nat "'e listener"
  | OpErase connection
  | OpClear nat
  | OpClearAll
  | OpPublish nat 'e

fun exec :: "'e op \<Rightarrow> 'e emitter \<Rightarrow> 'e emitter option" where
  "exec (OpOn t f) s = Some (snd (on t f s))"
| "exec (OpOnce t f) s = Some (snd (once t f s))"
| "exec (OpErase c) s = erase c s"
| "exec (OpClear t) s = Some (clear t s)"
| "exec OpClearAll s = Some (clearAll s)"
| "exec (OpPublish t ev) s = publish t ev s"

fun execs :: "'e op list \<Rightarrow> 'e emitter \<Rightarrow> 'e emitter option" where
  "execs [] s = Some s"
| "execs (x # xs) s = (case exec x s of None \<Rightarrow> None | Some s' \<Rightarrow> execs xs s')"

declare for_each_rev.simps [code]

section \<open>Notions for the proofs\<close>

text \<open>Setting the flag of every node of a set.\<close>

definition mark :: "node set \<Rightarrow> (node \<rightharpoonup> bool \<times> 'e listener) \<Rightarrow> (node \<rightharpoonup> bool \<times> 'e listener)" where
  "mark N h = (\<lambda>n. if n \<in> N then map_option (\<lambda>(b, l). (True, l)) (h n) else h n)"

text \<open>The nodes of both lists of a type.\<close>

definition lists :: "nat \<Rightarrow> 'e emitter \<Rightarrow> node list" where
  "lists t s = onL_of t s @ onceL_of t s"

text \<open>Every node is in one list only, which may be the local list \<open>C\<close> of a
  running publish; the nodes of the lists exist; addresses in use are below
  \<open>fresh\<close>.\<close>

definition wf :: "node list \<Rightarrow> 'e emitter \<Rightarrow> bool" where
  "wf C s \<longleftrightarrow>
     distinct C \<and> set C \<subseteq> dom (nodes s) \<and> (\<forall>n \<in> dom (nodes s). n < fresh s) \<and>
     (\<forall>t. distinct (lists t s) \<and> set (lists t s) \<inter> set C = {} \<and>
          set (lists t s) \<subseteq> dom (nodes s)) \<and>
     (\<forall>t t'. t \<noteq> t' \<longrightarrow> set (lists t s) \<inter> set (lists t' s) = {})"

text \<open>The changes a listener can make: nodes keep their listener, flags are only
  set, no node is destroyed, and lists grow by new nodes, \<open>onL\<close> at the front and
  \<open>onceL\<close> at the back.\<close>

definition grows :: "'e emitter \<Rightarrow> 'e emitter \<Rightarrow> bool" where
  "grows s s' \<longleftrightarrow>
     fresh s \<le> fresh s' \<and>
     (\<forall>n b l. nodes s n = Some (b, l) \<longrightarrow> (\<exists>b'. nodes s' n = Some (b', l) \<and> (b \<longrightarrow> b'))) \<and>
     (\<forall>n. n \<in> dom (nodes s') \<longrightarrow> n \<in> dom (nodes s) \<or> fresh s \<le> n) \<and>
     (\<forall>t. \<exists>p. onL_of t s' = p @ onL_of t s \<and> (\<forall>n \<in> set p. fresh s \<le> n)) \<and>
     (\<forall>t. \<exists>p. onceL_of t s' = onceL_of t s @ p \<and> (\<forall>n \<in> set p. fresh s \<le> n))"

text \<open>The elements of a list that no listener can change, visited in order; the
  flag of each is read when its turn comes.\<close>

fun dispatch :: "node list \<Rightarrow> 'e \<Rightarrow> 'e emitter \<Rightarrow> ('e \<times> 'e emitter) option" where
  "dispatch [] ev s = Some (ev, s)"
| "dispatch (n # ns) ev s =
    (case func n ev s of None \<Rightarrow> None | Some (ev', s') \<Rightarrow> dispatch ns ev' s')"

text \<open>What a listener's body does to the event.\<close>

fun mut :: "'e action \<Rightarrow> 'e \<Rightarrow> 'e" where
  "mut (Mutate g) e = g e"
| "mut _ e = e"

definition effect :: "'e listener \<Rightarrow> 'e \<Rightarrow> 'e" where
  "effect f = fold mut (body f)"

text \<open>The values of the event that successive calls are handed, when each call
  hands the event it changed to the next.\<close>

fun seens :: "'e \<Rightarrow> 'e call list \<Rightarrow> 'e list" where
  "seens ev [] = []"
| "seens ev (c # cs) = ev # seens (effect (callee c) ev) cs"

text \<open>The calls made between two states.\<close>

definition calls_of :: "'e emitter \<Rightarrow> 'e emitter \<Rightarrow> 'e call list" where
  "calls_of s s' = drop (length (trace s)) (trace s')"

text \<open>The emitter when \<^verbatim>\<open>Handler::publish\<close> has swapped \<open>onceL\<close> with its local
  list.\<close>

definition start :: "nat \<Rightarrow> 'e emitter \<Rightarrow> 'e emitter" where
  "start t s = upd_handler t (\<lambda>h. h\<lparr>onceL := []\<rparr>) (handler t s)"

text \<open>The emitter that \<^verbatim>\<open>Handler::publish\<close> leaves, from the one after the last
  call.\<close>

definition finish :: "nat \<Rightarrow> node list \<Rightarrow> 'e emitter \<Rightarrow> 'e emitter" where
  "finish t C s = release C (remove_if t s)"

text \<open>The calls in a body that can set the flag of node \<open>n\<close>, a node of the
  handler of type \<open>t\<close>.\<close>

fun kills :: "nat \<Rightarrow> node \<Rightarrow> 'e action \<Rightarrow> bool" where
  "kills t n (Erase c) = (cnode c = n)"
| "kills t n (Clear t') = (t' = t)"
| "kills t n ClearAll = True"
| "kills t n _ = False"

text \<open>No listener stored for type \<open>t\<close> has such a call.\<close>

definition spares :: "nat \<Rightarrow> node \<Rightarrow> 'e emitter \<Rightarrow> bool" where
  "spares t n s \<longleftrightarrow>
     (\<forall>m \<in> set (lists t s).
        case nodes s m of None \<Rightarrow> True | Some (b, g) \<Rightarrow> list_all (\<lambda>a. \<not> kills t n a) (body g))"

text \<open>The list of type \<open>t\<close> that a registering call adds to.\<close>

fun target :: "'e action \<Rightarrow> 'e emitter \<Rightarrow> node list" where
  "target (On t g) s = onL_of t s"
| "target (Once t g) s = onceL_of t s"
| "target _ s = []"

text \<open>The call registers the listener \<open>f\<close>.\<close>

fun registers :: "'e action \<Rightarrow> 'e listener \<Rightarrow> bool" where
  "registers (On t g) f = (g = f)"
| "registers (Once t g) f = (g = f)"
| "registers _ f = False"

text \<open>Every call so far was of a node that exists or existed.\<close>

definition traced :: "'e emitter \<Rightarrow> bool" where
  "traced s \<longleftrightarrow> (\<forall>c \<in> set (trace s). at c < fresh s)"

text \<open>A node of \<open>onceL\<close> that has not been called, or a destroyed node that was
  called once at most.\<close>

definition at_most_once :: "nat \<Rightarrow> node \<Rightarrow> 'e emitter \<Rightarrow> bool" where
  "at_most_once t n s \<longleftrightarrow>
     n \<in> set (onceL_of t s) \<and> n \<notin> at ` set (trace s) \<or>
     nodes s n = None \<and> n < fresh s \<and> count_list (map at (trace s)) n \<le> 1"

text \<open>A node that was never called and is flagged or destroyed.\<close>

definition dead :: "node \<Rightarrow> 'e emitter \<Rightarrow> bool" where
  "dead n s \<longleftrightarrow> n < fresh s \<and> n \<notin> at ` set (trace s) \<and> (nodes s n = None \<or> first s n)"

text \<open>The number of handlers that exist.\<close>

definition live :: "'e emitter \<Rightarrow> nat" where
  "live s = length (filter (\<lambda>h. h \<noteq> None) (handlers s))"

text \<open>From \<open>s\<close> to \<open>s'\<close>, every handler is still in its slot, at its address, and
  if every handler made so far is in a slot, that is still so.\<close>

definition keeps :: "'e emitter \<Rightarrow> 'e emitter \<Rightarrow> bool" where
  "keeps s s' \<longleftrightarrow>
     (\<forall>t h. slot t s = Some h \<longrightarrow> (\<exists>h'. slot t s' = Some h' \<and> addr h' = addr h)) \<and>
     (made s = live s \<longrightarrow> made s' = live s')"

text \<open>No node of a once list has been called.\<close>

definition unspent :: "'e emitter \<Rightarrow> bool" where
  "unspent s \<longleftrightarrow> (\<forall>t. \<forall>n \<in> set (onceL_of t s). n \<notin> at ` set (trace s))"

text \<open>Every \<^verbatim>\<open>erase\<close> in the body of a listener stored for type \<open>t\<close> is of a
  connection whose node exists.\<close>

fun valid :: "'e emitter \<Rightarrow> 'e action \<Rightarrow> bool" where
  "valid s (Erase c) = (nodes s (cnode c) \<noteq> None)"
| "valid s _ = True"

definition sound :: "nat \<Rightarrow> 'e emitter \<Rightarrow> bool" where
  "sound t s \<longleftrightarrow>
     (\<forall>n \<in> set (lists t s).
        case nodes s n of None \<Rightarrow> True | Some (b, g) \<Rightarrow> list_all (valid s) (body g))"

text \<open>The lists are in the order of the node addresses: \<open>onL\<close> newest first,
  \<open>onceL\<close> oldest first.\<close>

definition ordered :: "'e emitter \<Rightarrow> bool" where
  "ordered s \<longleftrightarrow> (\<forall>t. sorted_wrt (>) (onL_of t s) \<and> sorted_wrt (<) (onceL_of t s))"

text \<open>The calls to the emitter that the bodies of a sequence of invocations
  make, in order.\<close>

definition acts :: "'e call list \<Rightarrow> 'e action list" where
  "acts cs = concat (map (\<lambda>c. body (callee c)) cs)"

text \<open>The calls that make a node.\<close>

fun registering :: "'e action \<Rightarrow> bool" where
  "registering (On t g) = True"
| "registering (Once t g) = True"
| "registering _ = False"

text \<open>The address of the node that the \<open>k\<close>-th call of a sequence makes when the
  sequence runs from \<open>s\<close>: every registration takes the next address.\<close>

definition node_of :: "'e emitter \<Rightarrow> 'e action list \<Rightarrow> nat \<Rightarrow> node" where
  "node_of s as k = fresh s + length (filter registering (take k as))"

text \<open>A call from outside is a publish of type \<open>t\<close>.\<close>

fun publishes :: "nat \<Rightarrow> 'e op \<Rightarrow> bool" where
  "publishes t (OpPublish t' ev) = (t' = t)"
| "publishes t _ = False"

text \<open>Every node that exists is in a list, or in the local list \<open>C\<close> of a running
  publish.\<close>

definition tight :: "node list \<Rightarrow> 'e emitter \<Rightarrow> bool" where
  "tight C s \<longleftrightarrow> (\<forall>n \<in> dom (nodes s). n \<in> set C \<or> (\<exists>t. n \<in> set (lists t s)))"

text \<open>A call registers a listener for type \<open>t\<close>.\<close>

fun adds_to :: "nat \<Rightarrow> 'e action \<Rightarrow> bool" where
  "adds_to t (On t' g) = (t' = t)"
| "adds_to t (Once t' g) = (t' = t)"
| "adds_to t _ = False"

fun op_adds_to :: "nat \<Rightarrow> 'e op \<Rightarrow> bool" where
  "op_adds_to t (OpOn t' g) = (t' = t)"
| "op_adds_to t (OpOnce t' g) = (t' = t)"
| "op_adds_to t _ = False"

text \<open>A sequence of calls from outside, run from \<open>s\<close>, returns, and no call of
  it registers a listener for type \<open>t\<close>, and neither does a call that the body
  of a listener called meanwhile makes.\<close>

fun never_registered :: "nat \<Rightarrow> 'e op list \<Rightarrow> 'e emitter \<Rightarrow> bool" where
  "never_registered t [] s = True"
| "never_registered t (x # xs) s =
    (case exec x s of
       None \<Rightarrow> False
     | Some s' \<Rightarrow>
        \<not> op_adds_to t x \<and> \<not> list_ex (adds_to t) (acts (calls_of s s')) \<and>
        never_registered t xs s')"

section \<open>Lemmas\<close>

subsection \<open>What each member does to the fields\<close>

lemma slot_handler:
  "slot t' (handler t s) =
     (if t' = t \<and> slot t s = None then Some \<lparr>addr = made s, onceL = [], onL = []\<rparr> else slot t' s)"
  by (auto simp: slot_def handler_def Let_def nth_append nth_list_update)

lemma handler_fields [simp]:
  "nodes (handler t s) = nodes s" "fresh (handler t s) = fresh s" "trace (handler t s) = trace s"
  by (simp_all add: handler_def Let_def)

lemma made_handler: "made (handler t s) = (if slot t s = None then made s + 1 else made s)"
  by (auto simp: slot_def handler_def Let_def nth_append)

lemma slot_handler_same: "slot t (handler t s) \<noteq> None"
  by (simp add: slot_handler)

lemma onL_of_handler [simp]: "onL_of t' (handler t s) = onL_of t' s"
  by (simp add: onL_of_def slot_handler)

lemma onceL_of_handler [simp]: "onceL_of t' (handler t s) = onceL_of t' s"
  by (simp add: onceL_of_def slot_handler)

lemma slot_upd_handler:
  "slot t' (upd_handler t f s) = (if t' = t then map_option f (slot t s) else slot t' s)"
  by (auto simp: slot_def upd_handler_def)

lemma upd_handler_fields [simp]:
  "nodes (upd_handler t f s) = nodes s" "fresh (upd_handler t f s) = fresh s"
  "trace (upd_handler t f s) = trace s" "made (upd_handler t f s) = made s"
  by (simp_all add: upd_handler_def)

lemma slot_cong_fields [simp]:
  "slot t (s\<lparr>nodes := h\<rparr>) = slot t s" "slot t (s\<lparr>fresh := k\<rparr>) = slot t s"
  "slot t (s\<lparr>trace := tr\<rparr>) = slot t s"
  by (simp_all add: slot_def)

lemma onL_of_fields [simp]:
  "onL_of t (s\<lparr>nodes := h\<rparr>) = onL_of t s" "onL_of t (s\<lparr>fresh := k\<rparr>) = onL_of t s"
  "onL_of t (s\<lparr>trace := tr\<rparr>) = onL_of t s"
  by (simp_all add: onL_of_def)

lemma onceL_of_fields [simp]:
  "onceL_of t (s\<lparr>nodes := h\<rparr>) = onceL_of t s" "onceL_of t (s\<lparr>fresh := k\<rparr>) = onceL_of t s"
  "onceL_of t (s\<lparr>trace := tr\<rparr>) = onceL_of t s"
  by (simp_all add: onceL_of_def)

lemma on_fields [simp]:
  "fst (on t f s) = Connection t (fresh s)"
  "nodes (snd (on t f s)) = (nodes s)(fresh s \<mapsto> (False, f))"
  "fresh (snd (on t f s)) = fresh s + 1"
  "trace (snd (on t f s)) = trace s"
  by (simp_all add: on_def Handler_on_def Let_def)

lemma onL_of_on: "onL_of t' (snd (on t f s)) = (if t' = t then fresh s # onL_of t s else onL_of t' s)"
  using slot_handler_same [of t s]
  by (auto simp: on_def Handler_on_def Let_def onL_of_def slot_upd_handler slot_handler)

lemma onceL_of_on [simp]: "onceL_of t' (snd (on t f s)) = onceL_of t' s"
  by (auto simp: on_def Handler_on_def Let_def onceL_of_def slot_upd_handler slot_handler
      split: option.splits)

lemma once_fields [simp]:
  "fst (once t f s) = Connection t (fresh s)"
  "nodes (snd (once t f s)) = (nodes s)(fresh s \<mapsto> (False, f))"
  "fresh (snd (once t f s)) = fresh s + 1"
  "trace (snd (once t f s)) = trace s"
  by (simp_all add: once_def Handler_once_def Let_def)

lemma onceL_of_once:
  "onceL_of t' (snd (once t f s)) = (if t' = t then onceL_of t s @ [fresh s] else onceL_of t' s)"
  using slot_handler_same [of t s]
  by (auto simp: once_def Handler_once_def Let_def onceL_of_def slot_upd_handler slot_handler)

lemma onL_of_once [simp]: "onL_of t' (snd (once t f s)) = onL_of t' s"
  by (auto simp: once_def Handler_once_def Let_def onL_of_def slot_upd_handler slot_handler
      split: option.splits)

lemma mark_empty [simp]: "mark {} h = h"
  by (simp add: mark_def)

lemma mark_mark [simp]: "mark N (mark M h) = mark (M \<union> N) h"
  by (auto simp: mark_def fun_eq_iff option.map_comp o_def split_def)

lemma tombstone_fields [simp]:
  "handlers (tombstone n s) = handlers s" "fresh (tombstone n s) = fresh s"
  "trace (tombstone n s) = trace s" "made (tombstone n s) = made s"
  by (simp_all add: tombstone_def split: option.splits)

lemma nodes_tombstone: "nodes (tombstone n s) = mark {n} (nodes s)"
  by (auto simp: tombstone_def mark_def fun_eq_iff split: option.splits)

lemma fold_tombstone_fields [simp]:
  "handlers (fold tombstone ns s) = handlers s" "fresh (fold tombstone ns s) = fresh s"
  "trace (fold tombstone ns s) = trace s" "made (fold tombstone ns s) = made s"
  by (induction ns arbitrary: s; simp)+

lemma nodes_fold_tombstone: "nodes (fold tombstone ns s) = mark (set ns) (nodes s)"
  by (induction ns arbitrary: s) (simp_all add: nodes_tombstone)

lemma slot_handlers_cong: "handlers s = handlers s' \<Longrightarrow> slot t s = slot t s'"
  by (simp add: slot_def)

lemma Handler_clear_fields [simp]:
  "handlers (Handler_clear t s) = handlers s" "fresh (Handler_clear t s) = fresh s"
  "trace (Handler_clear t s) = trace s" "made (Handler_clear t s) = made s"
  by (simp_all add: Handler_clear_def)

lemma onL_of_handlers_cong: "handlers s = handlers s' \<Longrightarrow> onL_of t s = onL_of t s'"
  by (simp add: onL_of_def slot_def)

lemma onceL_of_handlers_cong: "handlers s = handlers s' \<Longrightarrow> onceL_of t s = onceL_of t s'"
  by (simp add: onceL_of_def slot_def)

lemma nodes_Handler_clear:
  "nodes (Handler_clear t s) = mark (set (onL_of t s) \<union> set (onceL_of t s)) (nodes s)"
  by (simp add: Handler_clear_def nodes_fold_tombstone
      onL_of_handlers_cong [of "fold tombstone (onceL_of t s) s" s] Un_commute)

lemma onL_of_Handler_clear [simp]: "onL_of t' (Handler_clear t s) = onL_of t' s"
  by (rule onL_of_handlers_cong) simp

lemma onceL_of_Handler_clear [simp]: "onceL_of t' (Handler_clear t s) = onceL_of t' s"
  by (rule onceL_of_handlers_cong) simp

lemma clear_fields [simp]:
  "fresh (clear t s) = fresh s" "trace (clear t s) = trace s"
  "onL_of t' (clear t s) = onL_of t' s" "onceL_of t' (clear t s) = onceL_of t' s"
  by (simp_all add: clear_def)

lemma nodes_clear: "nodes (clear t s) = mark (set (onL_of t s) \<union> set (onceL_of t s)) (nodes s)"
  by (simp add: clear_def nodes_Handler_clear)

lemma Handler_clear_no_handler: "slot t s = None \<Longrightarrow> Handler_clear t s = s"
  by (simp add: Handler_clear_def onL_of_def onceL_of_def)

lemma clearAll_fold: "clearAll s = fold Handler_clear [0 ..< length (handlers s)] s"
proof -
  have "fold (\<lambda>t s'. if handlers s' ! t = None then s' else Handler_clear t s') ts s0
        = fold Handler_clear ts s0"
    if "\<forall>t \<in> set ts. t < length (handlers s0)" for ts and s0 :: "'a emitter"
    using that
  proof (induction ts arbitrary: s0)
    case Nil
    then show ?case by simp
  next
    case (Cons t ts)
    have "handlers s0 ! t = None \<Longrightarrow> Handler_clear t s0 = s0"
      using Cons.prems by (intro Handler_clear_no_handler) (simp add: slot_def)
    with Cons show ?case by auto
  qed
  then show ?thesis by (simp add: clearAll_def)
qed

lemma fold_Handler_clear_fields [simp]:
  "handlers (fold Handler_clear ts s) = handlers s" "fresh (fold Handler_clear ts s) = fresh s"
  "trace (fold Handler_clear ts s) = trace s" "made (fold Handler_clear ts s) = made s"
  by (induction ts arbitrary: s; simp)+

lemma nodes_fold_Handler_clear:
  "nodes (fold Handler_clear ts s) =
     mark (\<Union>t \<in> set ts. set (onL_of t s) \<union> set (onceL_of t s)) (nodes s)"
proof (induction ts arbitrary: s)
  case Nil
  then show ?case by simp
next
  case (Cons t ts)
  show ?case
    by (simp add: Cons.IH nodes_Handler_clear Un_assoc)
qed

lemma clearAll_fields [simp]:
  "handlers (clearAll s) = handlers s" "fresh (clearAll s) = fresh s"
  "trace (clearAll s) = trace s" "made (clearAll s) = made s"
  by (simp_all add: clearAll_fold)

lemma onL_of_clearAll [simp]: "onL_of t (clearAll s) = onL_of t s"
  by (rule onL_of_handlers_cong) simp

lemma onceL_of_clearAll [simp]: "onceL_of t (clearAll s) = onceL_of t s"
  by (rule onceL_of_handlers_cong) simp

lemma lists_beyond: "\<not> t < length (handlers s) \<Longrightarrow> onL_of t s = [] \<and> onceL_of t s = []"
  by (simp add: onL_of_def onceL_of_def slot_def)

lemma nodes_clearAll:
  "nodes (clearAll s) = mark (\<Union>t. set (onL_of t s) \<union> set (onceL_of t s)) (nodes s)"
proof -
  have "(\<Union>t \<in> set [0 ..< length (handlers s)]. set (onL_of t s) \<union> set (onceL_of t s))
        = (\<Union>t. set (onL_of t s) \<union> set (onceL_of t s))"
    using lists_beyond [of _ s] by fastforce
  then show ?thesis
    by (simp only: clearAll_fold nodes_fold_Handler_clear)
qed

lemma erase_Some:
  "erase c s = Some s' \<longleftrightarrow>
     (\<exists>b l. nodes s (cnode c) = Some (b, l) \<and>
        s' = (handler (ctype c) s)\<lparr>nodes := (nodes s)(cnode c \<mapsto> (True, l))\<rparr>)"
  by (auto simp: erase_def Handler_erase_def split: option.splits)

lemma erase_None: "erase c s = None \<longleftrightarrow> nodes s (cnode c) = None"
  by (auto simp: erase_def Handler_erase_def split: option.splits)

lemma erase_fields:
  assumes "erase c s = Some s'"
  shows "nodes s' = mark {cnode c} (nodes s)" "fresh s' = fresh s" "trace s' = trace s"
    "onL_of t s' = onL_of t s" "onceL_of t s' = onceL_of t s"
  using assms by (auto simp: erase_Some mark_def fun_eq_iff)

subsection \<open>Well-formed emitters and what a listener can change\<close>

lemma grows_refl [simp]: "grows s s"
  by (simp add: grows_def)

lemma grows_trans:
  assumes "grows s s'" "grows s' s''"
  shows "grows s s''"
  unfolding grows_def
proof (intro conjI allI impI)
  show "fresh s \<le> fresh s''"
    using assms by (auto simp: grows_def)
next
  fix n b l
  assume "nodes s n = Some (b, l)"
  then obtain b' where b': "nodes s' n = Some (b', l)" "b \<longrightarrow> b'"
    using assms(1) unfolding grows_def by blast
  then obtain b'' where "nodes s'' n = Some (b'', l)" "b' \<longrightarrow> b''"
    using assms(2) unfolding grows_def by blast
  with b' show "\<exists>b'. nodes s'' n = Some (b', l) \<and> (b \<longrightarrow> b')"
    by blast
next
  fix n
  assume "n \<in> dom (nodes s'')"
  then have "n \<in> dom (nodes s') \<or> fresh s' \<le> n"
    using assms(2) unfolding grows_def by blast
  moreover have "n \<in> dom (nodes s') \<Longrightarrow> n \<in> dom (nodes s) \<or> fresh s \<le> n"
    using assms(1) unfolding grows_def by blast
  moreover have "fresh s \<le> fresh s'"
    using assms(1) by (simp add: grows_def)
  ultimately show "n \<in> dom (nodes s) \<or> fresh s \<le> n"
    by auto
next
  fix t
  obtain p where p: "onL_of t s' = p @ onL_of t s" "\<forall>n \<in> set p. fresh s \<le> n"
    using assms(1) unfolding grows_def by blast
  obtain q where q: "onL_of t s'' = q @ onL_of t s'" "\<forall>n \<in> set q. fresh s' \<le> n"
    using assms(2) unfolding grows_def by blast
  have "fresh s \<le> fresh s'"
    using assms(1) by (simp add: grows_def)
  with p q have "onL_of t s'' = (q @ p) @ onL_of t s \<and> (\<forall>n \<in> set (q @ p). fresh s \<le> n)"
    by fastforce
  then show "\<exists>p. onL_of t s'' = p @ onL_of t s \<and> (\<forall>n \<in> set p. fresh s \<le> n)"
    by blast
next
  fix t
  obtain p where p: "onceL_of t s' = onceL_of t s @ p" "\<forall>n \<in> set p. fresh s \<le> n"
    using assms(1) unfolding grows_def by blast
  obtain q where q: "onceL_of t s'' = onceL_of t s' @ q" "\<forall>n \<in> set q. fresh s' \<le> n"
    using assms(2) unfolding grows_def by blast
  have "fresh s \<le> fresh s'"
    using assms(1) by (simp add: grows_def)
  with p q have "onceL_of t s'' = onceL_of t s @ (p @ q) \<and> (\<forall>n \<in> set (p @ q). fresh s \<le> n)"
    by fastforce
  then show "\<exists>p. onceL_of t s'' = onceL_of t s @ p \<and> (\<forall>n \<in> set p. fresh s \<le> n)"
    by blast
qed

lemma dom_mark [simp]: "dom (mark N h) = dom h"
  by (auto simp: mark_def dom_def split: if_splits)

lemma mark_Some:
  "mark N h n = Some (b, l) \<longleftrightarrow> (\<exists>b0. h n = Some (b0, l) \<and> b = (b0 \<or> n \<in> N))"
  by (cases "h n") (auto simp: mark_def)

text \<open>Setting flags.\<close>

lemma marked_grows:
  assumes "nodes s' = mark N (nodes s)" "fresh s' = fresh s"
    "\<And>t. onL_of t s' = onL_of t s" "\<And>t. onceL_of t s' = onceL_of t s"
  shows "grows s s'"
  using assms by (simp add: grows_def mark_Some)

lemma marked_wf:
  assumes "nodes s' = mark N (nodes s)" "fresh s' = fresh s"
    "\<And>t. onL_of t s' = onL_of t s" "\<And>t. onceL_of t s' = onceL_of t s" "wf C s"
  shows "wf C s'"
  using assms by (simp add: wf_def lists_def)

text \<open>Registering.\<close>

lemma wf_fresh: "wf C s \<Longrightarrow> nodes s (fresh s) = None"
  by (force simp: wf_def)

lemma wf_fresh_lists: "wf C s \<Longrightarrow> fresh s \<notin> set (lists t s) \<and> fresh s \<notin> set C"
  using wf_fresh [of C s] by (auto simp: wf_def)

lemma on_grows: "wf C s \<Longrightarrow> grows s (snd (on t f s))"
  using wf_fresh [of C s] by (auto simp: grows_def onL_of_on)

lemma once_grows: "wf C s \<Longrightarrow> grows s (snd (once t f s))"
  using wf_fresh [of C s] by (auto simp: grows_def onceL_of_once)

lemma lists_on:
  "lists t' (snd (on t f s)) = (if t' = t then fresh s # lists t s else lists t' s)"
  by (simp add: lists_def onL_of_on)

lemma on_wf:
  assumes "wf C s"
  shows "wf C (snd (on t f s))"
proof -
  have "fresh s \<notin> set (lists t' s)" "fresh s \<notin> set C" for t'
    using wf_fresh_lists [OF assms] by auto
  with assms show ?thesis
    unfolding wf_def lists_on by (auto simp: less_Suc_eq)
qed

lemma set_lists_once:
  "set (lists t' (snd (once t f s))) = (if t' = t then insert (fresh s) (set (lists t s)) else set (lists t' s))"
  by (simp add: lists_def onceL_of_once)

lemma distinct_lists_once:
  "distinct (lists t' (snd (once t f s))) \<longleftrightarrow>
     (if t' = t then fresh s \<notin> set (lists t s) \<and> distinct (lists t s) else distinct (lists t' s))"
  by (auto simp: lists_def onceL_of_once)

lemma once_wf:
  assumes "wf C s"
  shows "wf C (snd (once t f s))"
proof -
  have "fresh s \<notin> set (lists t' s)" "fresh s \<notin> set C" for t'
    using wf_fresh_lists [OF assms] by auto
  with assms show ?thesis
    unfolding wf_def set_lists_once distinct_lists_once by (auto simp: less_Suc_eq)
qed

text \<open>One call of a listener's body, and the whole body.\<close>

lemma step_grows:
  assumes "step a ev s = Some (ev', s')" "wf C s"
  shows "grows s s' \<and> wf C s' \<and> trace s' = trace s"
proof (cases a)
  case (On t f)
  with assms have "s' = snd (on t f s)" by auto
  with assms(2) show ?thesis by (simp add: on_grows on_wf)
next
  case (Once t f)
  with assms have "s' = snd (once t f s)" by auto
  with assms(2) show ?thesis by (simp add: once_grows once_wf)
next
  case (Erase c)
  with assms have e: "erase c s = Some s'" by auto
  note f = erase_fields [OF e]
  have "grows s s'"
    by (rule marked_grows [OF f(1) f(2)]) (simp_all add: f)
  moreover have "wf C s'"
    by (rule marked_wf [OF f(1) f(2) _ _ assms(2)]) (simp_all add: f)
  ultimately show ?thesis by (simp add: f)
next
  case (Clear t)
  with assms have s': "s' = clear t s" by auto
  have "grows s s'"
    unfolding s' by (rule marked_grows [OF nodes_clear]) simp_all
  moreover have "wf C s'"
    unfolding s' by (rule marked_wf [OF nodes_clear _ _ _ assms(2)]) simp_all
  ultimately show ?thesis by (simp add: s')
next
  case ClearAll
  with assms have s': "s' = clearAll s" by auto
  have "grows s s'"
    unfolding s' by (rule marked_grows [OF nodes_clearAll]) simp_all
  moreover have "wf C s'"
    unfolding s' by (rule marked_wf [OF nodes_clearAll _ _ _ assms(2)]) simp_all
  ultimately show ?thesis by (simp add: s')
next
  case (Mutate g)
  with assms show ?thesis by auto
qed

lemma run_grows:
  "run as ev s = Some (ev', s') \<Longrightarrow> wf C s \<Longrightarrow> grows s s' \<and> wf C s' \<and> trace s' = trace s"
proof (induction as arbitrary: ev s)
  case Nil
  then show ?case by simp
next
  case (Cons a as)
  from Cons.prems(1) obtain ev1 s1 where
    a: "step a ev s = Some (ev1, s1)" and r: "run as ev1 s1 = Some (ev', s')"
    by (auto split: option.splits)
  from step_grows [OF a Cons.prems(2)] Cons.IH [OF r]
  show ?case by (auto intro: grows_trans)
qed

subsection \<open>One visit\<close>

lemma lists_trace [simp]: "lists t (s\<lparr>trace := tr\<rparr>) = lists t s"
  by (simp add: lists_def)

lemma wf_trace [simp]: "wf C (s\<lparr>trace := tr\<rparr>) = wf C s"
  by (simp add: wf_def)

lemma grows_trace [simp]: "grows s (s'\<lparr>trace := tr\<rparr>) = grows s s'"
  "grows (s\<lparr>trace := tr\<rparr>) s' = grows s s'"
  by (simp_all add: grows_def)

lemma invoke_grows:
  assumes "invoke n f ev s = Some (ev', s')" "wf C s"
  shows "grows s s' \<and> wf C s' \<and> trace s' = trace s @ [Call n f ev]"
  using run_grows [of "body f" ev "s\<lparr>trace := trace s @ [Call n f ev]\<rparr>" ev' s' C] assms
  by (simp add: invoke_def)

lemma func_cases:
  assumes "func n ev s = Some (ev', s')"
  obtains (skipped) f where "nodes s n = Some (True, f)" "ev' = ev" "s' = s"
  | (called) f where "nodes s n = Some (False, f)" "invoke n f ev s = Some (ev', s')"
  using assms by (auto simp: func_def split: option.splits if_splits)

lemma func_grows:
  assumes "func n ev s = Some (ev', s')" "wf C s"
  shows "grows s s' \<and> wf C s'"
  using assms(1)
proof (cases rule: func_cases)
  case (skipped f)
  with assms(2) show ?thesis by simp
next
  case (called f)
  with invoke_grows [OF called(2) assms(2)] show ?thesis by simp
qed

subsection \<open>Visiting a fixed sequence of nodes\<close>

lemma dispatch_append:
  "dispatch (xs @ ys) ev s =
    (case dispatch xs ev s of None \<Rightarrow> None | Some (ev', s') \<Rightarrow> dispatch ys ev' s')"
  by (induction xs arbitrary: ev s) (auto split: option.splits)

subsection \<open>The reverse traversal of a live list visits the nodes it started with\<close>

lemma before_mid: "distinct (as @ n # z # bs) \<Longrightarrow> before z (as @ n # z # bs) = Some n"
proof (induction as)
  case Nil
  then show ?case by simp
next
  case (Cons a as)
  then show ?case by (cases as) auto
qed

lemma decr_at:
  assumes "distinct (pre @ ys @ [n] @ zs)"
  shows "decr (pre @ ys @ [n] @ zs) (begin_it zs) = Some n"
proof (cases zs)
  case Nil
  then show ?thesis by (simp add: decr_def begin_it_def)
next
  case (Cons z zs')
  have "before z ((pre @ ys) @ n # z # zs') = Some n"
    by (rule before_mid) (use assms Cons in simp)
  with Cons show ?thesis by (simp add: decr_def begin_it_def)
qed

lemma begin_it_differs:
  assumes "distinct (ys @ [n] @ zs)"
  shows "begin_it zs \<noteq> begin_it ((ys @ [n]) @ zs)"
  using assms by (cases zs; cases ys) (auto simp: begin_it_def)

lemma for_each_rev_dispatch:
  assumes step: "\<And>s n ev ev' s'. I s \<Longrightarrow> func n ev s = Some (ev', s') \<Longrightarrow>
                   I s' \<and> (\<exists>p. lst s' = p @ lst s)"
    and dist: "\<And>s. I s \<Longrightarrow> distinct (lst s)"
  shows "I s \<Longrightarrow> lst s = pre @ ys @ zs \<Longrightarrow>
         for_each_rev lst (begin_it (ys @ zs)) (begin_it zs) ev s = dispatch (rev ys) ev s"
proof (induction ys arbitrary: s ev pre zs rule: rev_induct)
  case Nil
  show ?case by (subst for_each_rev.simps) simp
next
  case (snoc n ys)
  have d: "distinct (pre @ ys @ [n] @ zs)"
    using dist [OF snoc.prems(1)] snoc.prems(2) by simp
  then have ne: "begin_it zs \<noteq> begin_it ((ys @ [n]) @ zs)"
    by (intro begin_it_differs) simp
  have here: "decr (lst s) (begin_it zs) = Some n"
    using decr_at [OF d] snoc.prems(2) by simp
  show ?case
  proof (cases "func n ev s")
    case None
    with ne here show ?thesis by (subst for_each_rev.simps) simp
  next
    case (Some r)
    obtain ev' s' where r: "r = (ev', s')" by (cases r)
    from step [OF snoc.prems(1) Some [unfolded r]] obtain p where
      I': "I s'" and p: "lst s' = p @ lst s" by blast
    have l': "lst s' = (p @ pre) @ ys @ (n # zs)"
      using p snoc.prems(2) by simp
    have "distinct ((p @ pre) @ ys @ [n] @ zs)"
      using dist [OF I'] l' by simp
    then have there: "decr (lst s') (begin_it zs) = Some n"
      using decr_at [of "p @ pre" ys n zs] l' by simp
    have "for_each_rev lst (begin_it (ys @ n # zs)) (begin_it (n # zs)) ev' s'
          = dispatch (rev ys) ev' s'"
      by (rule snoc.IH [OF I' l'])
    then have "for_each_rev lst (begin_it ((ys @ [n]) @ zs)) (Some n) ev' s'
          = dispatch (rev ys) ev' s'"
      by (simp add: begin_it_def)
    with ne here there Some r show ?thesis
      by (subst for_each_rev.simps) simp
  qed
qed

lemma for_each_rev_live:
  assumes "wf C s"
  shows "for_each_rev (onL_of t) (begin_it (onL_of t s)) None ev s
         = dispatch (rev (onL_of t s)) ev s"
proof -
  have "for_each_rev (onL_of t) (begin_it (onL_of t s @ [])) (begin_it []) ev s
        = dispatch (rev (onL_of t s)) ev s"
  proof (rule for_each_rev_dispatch [where I = "wf C" and pre = "[]"])
    fix s :: "'a emitter" and n ev ev' s'
    assume "wf C s" "func n ev s = Some (ev', s')"
    from func_grows [OF this(2) this(1)]
    show "wf C s' \<and> (\<exists>p. onL_of t s' = p @ onL_of t s)"
      unfolding grows_def by blast
  next
    fix s :: "'a emitter"
    assume "wf C s"
    then show "distinct (onL_of t s)" by (auto simp: wf_def lists_def)
  qed (use assms in simp_all)
  then show ?thesis by (simp add: begin_it_def)
qed

lemma for_each_rev_local:
  assumes "distinct C"
  shows "for_each_rev (\<lambda>_. C) (begin_it C) None ev s = dispatch (rev C) ev s"
proof -
  have "for_each_rev (\<lambda>_. C) (begin_it (C @ [])) (begin_it []) ev s = dispatch (rev C) ev s"
    by (rule for_each_rev_dispatch [where I = "\<lambda>_. True" and pre = "[]"]) (use assms in simp_all)
  then show ?thesis by (simp add: begin_it_def)
qed

subsection \<open>The calls made during a dispatch\<close>

lemma calls_of_append [simp]: "trace s' = trace s @ cs \<Longrightarrow> calls_of s s' = cs"
  by (simp add: calls_of_def)

lemma grows_first: "grows s s' \<Longrightarrow> first s n \<Longrightarrow> first s' n"
  unfolding grows_def first_def by (fastforce split: option.splits)

lemma grows_dom: "grows s s' \<Longrightarrow> n \<in> dom (nodes s) \<Longrightarrow> n \<in> dom (nodes s')"
  unfolding grows_def by fastforce

lemma grows_node:
  "grows s s' \<Longrightarrow> nodes s n = Some (b, f) \<Longrightarrow> \<exists>b'. nodes s' n = Some (b', f) \<and> (b \<longrightarrow> b')"
  unfolding grows_def by blast

lemma grows_node_back:
  assumes "grows s s'" "nodes s' n = Some (False, f)" "n \<in> dom (nodes s)"
  shows "nodes s n = Some (False, f)"
proof -
  from assms(3) obtain b g where "nodes s n = Some (b, g)" by auto
  with grows_node [OF assms(1) this] assms(2) show ?thesis by auto
qed

lemma step_event: "step a ev s = Some (ev', s') \<Longrightarrow> ev' = mut a ev"
  by (cases a) auto

lemma run_event: "run as ev s = Some (ev', s') \<Longrightarrow> ev' = fold mut as ev"
proof (induction as arbitrary: ev s)
  case Nil
  then show ?case by simp
next
  case (Cons a as)
  then show ?case by (auto split: option.splits dest: step_event)
qed

lemma invoke_event: "invoke n f ev s = Some (ev', s') \<Longrightarrow> ev' = effect f ev"
  by (simp add: invoke_def effect_def run_event)

lemma dispatch_grows:
  "dispatch ns ev s = Some (ev', s') \<Longrightarrow> wf C s \<Longrightarrow> grows s s' \<and> wf C s'"
proof (induction ns arbitrary: ev s)
  case Nil
  then show ?case by simp
next
  case (Cons n ns)
  from Cons.prems(1) obtain ev1 s1 where
    f: "func n ev s = Some (ev1, s1)" and d: "dispatch ns ev1 s1 = Some (ev', s')"
    by (auto split: option.splits)
  from func_grows [OF f Cons.prems(2)] Cons.IH [OF d]
  show ?case by (auto intro: grows_trans)
qed

text \<open>The calls of a dispatch over the nodes \<open>ns\<close>: they are made in the order of
  \<open>ns\<close>, each to the listener of a node whose flag was not set, a node whose
  flag is still not set at the end was called, and every call is handed the
  event as the calls before left it.\<close>

lemma dispatch_calls:
  assumes "dispatch ns ev s = Some (ev', s')" "wf C s" "set ns \<subseteq> dom (nodes s)"
  shows "\<exists>cs. trace s' = trace s @ cs \<and> subseq (map at cs) ns \<and>
           (\<forall>c \<in> set cs. nodes s (at c) = Some (False, callee c)) \<and>
           (\<forall>n \<in> set ns. \<not> first s' n \<longrightarrow> n \<in> at ` set cs) \<and>
           map seen cs = seens ev cs \<and> ev' = fold (\<lambda>c. effect (callee c)) cs ev"
  using assms
proof (induction ns arbitrary: ev s)
  case Nil
  then show ?case by simp
next
  case (Cons n ns)
  from Cons.prems(1) obtain ev1 s1 where
    f: "func n ev s = Some (ev1, s1)" and d: "dispatch ns ev1 s1 = Some (ev', s')"
    by (auto split: option.splits)
  have g1: "grows s s1" and w1: "wf C s1"
    using func_grows [OF f Cons.prems(2)] by auto
  have g2: "grows s1 s'"
    using dispatch_grows [OF d w1] by simp
  have sub1: "set ns \<subseteq> dom (nodes s1)"
  proof
    fix m assume "m \<in> set ns"
    then have "m \<in> dom (nodes s)" using Cons.prems(3) by auto
    then show "m \<in> dom (nodes s1)" by (rule grows_dom [OF g1])
  qed
  from Cons.IH [OF d w1 sub1] obtain cs where cs:
    "trace s' = trace s1 @ cs" "subseq (map at cs) ns"
    "\<forall>c \<in> set cs. nodes s1 (at c) = Some (False, callee c)"
    "\<forall>n \<in> set ns. \<not> first s' n \<longrightarrow> n \<in> at ` set cs"
    "map seen cs = seens ev1 cs" "ev' = fold (\<lambda>c. effect (callee c)) cs ev1"
    by blast
  have old: "\<forall>c \<in> set cs. nodes s (at c) = Some (False, callee c)"
  proof
    fix c assume c: "c \<in> set cs"
    then have "at c \<in> set (map at cs)" by simp
    then have "at c \<in> set ns"
      using list_emb_set [OF cs(2)] by blast
    then have "at c \<in> dom (nodes s)" using Cons.prems(3) by auto
    with grows_node_back [OF g1] cs(3) c
    show "nodes s (at c) = Some (False, callee c)" by blast
  qed
  from f show ?case
  proof (cases rule: func_cases)
    case (skipped g)
    have "first s' n"
      using skipped grows_first [OF g2, of n] by (simp add: first_def)
    with skipped cs old show ?thesis
      by (intro exI [of _ cs]) auto
  next
    case (called g)
    have tr: "trace s1 = trace s @ [Call n g ev]"
      using invoke_grows [OF called(2) Cons.prems(2)] by simp
    have ev1: "ev1 = effect g ev"
      using invoke_event [OF called(2)] .
    show ?thesis
      using cs old tr ev1 called(1)
      by (intro exI [of _ "Call n g ev # cs"]) auto
  qed
qed

subsection \<open>Publish as a dispatch over the two lists it starts with\<close>

lemma start_fields [simp]:
  "nodes (start t s) = nodes s" "fresh (start t s) = fresh s" "trace (start t s) = trace s"
  "onL_of t' (start t s) = onL_of t' s"
  "onceL_of t' (start t s) = (if t' = t then [] else onceL_of t' s)"
  by (auto simp: start_def onL_of_def onceL_of_def slot_upd_handler slot_handler
      split: option.splits)

lemma start_wf: "wf [] s \<Longrightarrow> wf (onceL_of t s) (start t s)"
  unfolding wf_def lists_def
  by (auto simp: disjoint_iff)

lemma release_fields [simp]:
  "handlers (release ns s) = handlers s" "fresh (release ns s) = fresh s"
  "trace (release ns s) = trace s" "made (release ns s) = made s"
  "nodes (release ns s) n = (if n \<in> set ns then None else nodes s n)"
  by (simp_all add: release_def)

lemma onL_of_release [simp]: "onL_of t (release ns s) = onL_of t s"
  by (rule onL_of_handlers_cong) simp

lemma onceL_of_release [simp]: "onceL_of t (release ns s) = onceL_of t s"
  by (rule onceL_of_handlers_cong) simp

lemma onL_of_filtered:
  "onL_of t' (upd_handler t (\<lambda>h. h\<lparr>onL := filter P (onL h)\<rparr>) s) =
     (if t' = t then filter P (onL_of t s) else onL_of t' s)"
  by (auto simp: onL_of_def slot_upd_handler split: option.splits)

lemma onceL_of_filtered:
  "onceL_of t' (upd_handler t (\<lambda>h. h\<lparr>onL := filter P (onL h)\<rparr>) s) = onceL_of t' s"
  by (auto simp: onceL_of_def slot_upd_handler split: option.splits)

lemma remove_if_fields [simp]:
  "fresh (remove_if t s) = fresh s" "trace (remove_if t s) = trace s"
  "made (remove_if t s) = made s"
  "nodes (remove_if t s) n = (if n \<in> set (onL_of t s) \<and> first s n then None else nodes s n)"
  "onceL_of t' (remove_if t s) = onceL_of t' s"
  "onL_of t' (remove_if t s) =
     (if t' = t then filter (\<lambda>n. \<not> first s n) (onL_of t s) else onL_of t' s)"
  by (auto simp: remove_if_def onL_of_filtered onceL_of_filtered)

lemma finish_fields [simp]:
  "fresh (finish t C s) = fresh s" "trace (finish t C s) = trace s"
  "nodes (finish t C s) n =
     (if n \<in> set C \<or> (n \<in> set (onL_of t s) \<and> first s n) then None else nodes s n)"
  "onceL_of t' (finish t C s) = onceL_of t' s"
  "onL_of t' (finish t C s) =
     (if t' = t then filter (\<lambda>n. \<not> first s n) (onL_of t s) else onL_of t' s)"
  by (auto simp: finish_def)

lemma finish_wf:
  assumes "wf C s"
  shows "wf [] (finish t C s)"
proof -
  have sub: "set (lists t' (finish t C s)) \<subseteq> set (lists t' s)" for t'
    by (auto simp: lists_def)
  have dis: "distinct (lists t' (finish t C s))" for t'
    using assms by (auto simp: wf_def lists_def)
  have keep: "n \<in> dom (nodes (finish t C s))" if "n \<in> set (lists t' (finish t C s))" for n t'
  proof -
    from that sub have n: "n \<in> set (lists t' s)" by blast
    then have "n \<notin> set C" "n \<in> dom (nodes s)"
      using assms by (auto simp: wf_def)
    moreover have "\<not> (n \<in> set (onL_of t s) \<and> first s n)"
    proof (cases "t' = t")
      case True
      with that assms show ?thesis
        by (auto simp: lists_def wf_def)
    next
      case False
      then have "set (lists t' s) \<inter> set (lists t s) = {}"
        using assms by (simp add: wf_def)
      with n show ?thesis by (auto simp: lists_def)
    qed
    ultimately show ?thesis by (auto simp: dom_def)
  qed
  have younger: "n < fresh (finish t C s)" if "n \<in> dom (nodes (finish t C s))" for n
    using that assms by (auto simp: wf_def dom_def split: if_splits)
  have apart: "set (lists t1 (finish t C s)) \<inter> set (lists t2 (finish t C s)) = {}"
    if "t1 \<noteq> t2" for t1 t2
  proof -
    have "set (lists t1 s) \<inter> set (lists t2 s) = {}"
      using assms that by (simp add: wf_def)
    with sub [of t1] sub [of t2] show ?thesis by blast
  qed
  show ?thesis
    unfolding wf_def using dis keep younger apart by auto
qed

lemma publish_dispatch:
  assumes "wf [] s"
  shows "publish t ev s =
    (case dispatch (rev (onL_of t s) @ rev (onceL_of t s)) ev (start t s) of
       None \<Rightarrow> None
     | Some (ev2, s2) \<Rightarrow> Some (finish t (onceL_of t s) s2))"
proof -
  let ?C = "onceL_of t s"
  have w0: "wf ?C (start t s)"
    by (rule start_wf [OF assms])
  have live: "for_each_rev (onL_of t) (begin_it (onL_of t s)) None ev (start t s)
              = dispatch (rev (onL_of t s)) ev (start t s)"
    using for_each_rev_live [OF w0, of t ev] by simp
  have dC: "distinct ?C"
    using w0 by (simp add: wf_def)
  show ?thesis
    by (simp add: publish_def Handler_publish_def Let_def start_def [symmetric] live
        for_each_rev_local [OF dC] dispatch_append finish_def split: option.splits)
qed

lemma publish_wf:
  assumes "publish t ev s = Some s'" "wf [] s"
  shows "wf [] s'"
proof -
  from assms obtain ev2 s2 where
    d: "dispatch (rev (onL_of t s) @ rev (onceL_of t s)) ev (start t s) = Some (ev2, s2)"
    and s': "s' = finish t (onceL_of t s) s2"
    by (auto simp: publish_dispatch split: option.splits)
  have "wf (onceL_of t s) s2"
    using dispatch_grows [OF d start_wf [OF assms(2)]] by simp
  then show ?thesis
    unfolding s' by (rule finish_wf)
qed

lemma Emitter_wf: "wf [] Emitter"
  by (simp add: wf_def Emitter_def lists_def onL_of_def onceL_of_def slot_def)

lemma exec_wf:
  assumes "exec x s = Some s'" "wf [] s"
  shows "wf [] s'"
proof (cases x)
  case (OpOn t f)
  with assms show ?thesis by (auto simp: on_wf)
next
  case (OpOnce t f)
  with assms show ?thesis by (auto simp: once_wf)
next
  case (OpErase c)
  with assms have "step (Erase c) undefined s = Some (undefined, s')" by simp
  from step_grows [OF this assms(2)] show ?thesis by simp
next
  case (OpClear t)
  with assms have "step (Clear t) undefined s = Some (undefined, s')" by simp
  from step_grows [OF this assms(2)] show ?thesis by simp
next
  case OpClearAll
  with assms have "step ClearAll undefined s = Some (undefined, s')" by simp
  from step_grows [OF this assms(2)] show ?thesis by simp
next
  case (OpPublish t ev)
  with assms show ?thesis by (auto intro: publish_wf)
qed

lemma execs_wf: "execs xs s = Some s' \<Longrightarrow> wf [] s \<Longrightarrow> wf [] s'"
proof (induction xs arbitrary: s)
  case Nil
  then show ?case by simp
next
  case (Cons x xs)
  then show ?case by (auto split: option.splits dest: exec_wf)
qed

lemma reachable_wf: "execs xs Emitter = Some s \<Longrightarrow> wf [] s"
  by (rule execs_wf [OF _ Emitter_wf])

lemma wf_first: "wf C s \<Longrightarrow> n \<in> set (lists t s) \<Longrightarrow> first s n \<longleftrightarrow> (\<exists>f. nodes s n = Some (True, f))"
  unfolding wf_def first_def by (fastforce split: option.splits)

subsection \<open>What a publish does\<close>

lemma publish_facts:
  assumes "wf [] s" "publish t ev s = Some s'"
  obtains ev2 s2 cs where
    "dispatch (rev (onL_of t s) @ rev (onceL_of t s)) ev (start t s) = Some (ev2, s2)"
    "s' = finish t (onceL_of t s) s2"
    "grows (start t s) s2" "wf (onceL_of t s) s2"
    "trace s' = trace s @ cs" "trace s2 = trace s @ cs"
    "subseq (map at cs) (rev (onL_of t s) @ rev (onceL_of t s))"
    "\<forall>c \<in> set cs. nodes s (at c) = Some (False, callee c)"
    "\<forall>n \<in> set (onL_of t s) \<union> set (onceL_of t s). \<not> first s2 n \<longrightarrow> n \<in> at ` set cs"
    "map seen cs = seens ev cs"
proof -
  from assms obtain ev2 s2 where
    d: "dispatch (rev (onL_of t s) @ rev (onceL_of t s)) ev (start t s) = Some (ev2, s2)"
    and s': "s' = finish t (onceL_of t s) s2"
    by (auto simp: publish_dispatch split: option.splits)
  have w0: "wf (onceL_of t s) (start t s)"
    by (rule start_wf [OF assms(1)])
  have sub: "set (rev (onL_of t s) @ rev (onceL_of t s)) \<subseteq> dom (nodes (start t s))"
    using assms(1) by (auto simp: wf_def lists_def)
  from dispatch_calls [OF d w0 sub] obtain cs where cs:
    "trace s2 = trace (start t s) @ cs"
    "subseq (map at cs) (rev (onL_of t s) @ rev (onceL_of t s))"
    "\<forall>c \<in> set cs. nodes (start t s) (at c) = Some (False, callee c)"
    "\<forall>n \<in> set (rev (onL_of t s) @ rev (onceL_of t s)). \<not> first s2 n \<longrightarrow> n \<in> at ` set cs"
    "map seen cs = seens ev cs"
    by blast
  show ?thesis
  proof (rule that [OF d s'])
    show "grows (start t s) s2" "wf (onceL_of t s) s2"
      using dispatch_grows [OF d w0] by auto
    show "trace s' = trace s @ cs" "trace s2 = trace s @ cs"
      using cs(1) by (simp_all add: s')
    show "subseq (map at cs) (rev (onL_of t s) @ rev (onceL_of t s))"
      by (rule cs(2))
    show "\<forall>c \<in> set cs. nodes s (at c) = Some (False, callee c)"
      using cs(3) by simp
    show "\<forall>n \<in> set (onL_of t s) \<union> set (onceL_of t s). \<not> first s2 n \<longrightarrow> n \<in> at ` set cs"
      using cs(4) by simp
    show "map seen cs = seens ev cs"
      by (rule cs(5))
  qed
qed

lemma seens_nth:
  "i < length cs \<Longrightarrow> seens ev cs ! i = fold (\<lambda>c. effect (callee c)) (take i cs) ev"
proof (induction cs arbitrary: i ev)
  case Nil
  then show ?case by simp
next
  case (Cons c cs)
  then show ?case by (cases i) auto
qed

lemma length_seens [simp]: "length (seens ev cs) = length cs"
  by (induction cs arbitrary: ev) auto

subsection \<open>Listeners that set the flag of a node, and listeners that do not\<close>

lemma sparesD:
  "spares t n s \<Longrightarrow> m \<in> set (lists t s) \<Longrightarrow> nodes s m = Some (b, g) \<Longrightarrow> a \<in> set (body g) \<Longrightarrow>
     \<not> kills t n a"
  unfolding spares_def list_all_iff by fastforce

lemma first_marked:
  "nodes s' = mark N (nodes s) \<Longrightarrow> first s' n \<longleftrightarrow> first s n \<or> (n \<in> N \<and> n \<in> dom (nodes s))"
  by (cases "nodes s n") (auto simp: first_def mark_def)

lemma grows_lists: "grows s s' \<Longrightarrow> n \<in> set (lists t s) \<Longrightarrow> n \<in> set (lists t s')"
  unfolding grows_def lists_def by (metis Un_iff set_append)

lemma wf_lists_dom: "wf C s \<Longrightarrow> n \<in> set (lists t s) \<union> set C \<Longrightarrow> n \<in> dom (nodes s)"
  unfolding wf_def by blast

lemma wf_other_list:
  "wf C s \<Longrightarrow> n \<in> set (lists t s) \<union> set C \<Longrightarrow> t' \<noteq> t \<Longrightarrow> n \<notin> set (lists t' s)"
  unfolding wf_def by blast

lemma step_spares:
  assumes "step a ev s = Some (ev', s')" "wf C s" "n \<in> set (lists t s) \<union> set C" "\<not> kills t n a"
  shows "first s' n = first s n"
proof (cases a)
  case (On t' f)
  have "n \<noteq> fresh s"
    using wf_lists_dom [OF assms(2,3)] wf_fresh [OF assms(2)] by auto
  with On assms(1) show ?thesis by (auto simp: first_def)
next
  case (Once t' f)
  have "n \<noteq> fresh s"
    using wf_lists_dom [OF assms(2,3)] wf_fresh [OF assms(2)] by auto
  with Once assms(1) show ?thesis by (auto simp: first_def)
next
  case (Erase c)
  with assms(1) have e: "erase c s = Some s'" by auto
  from first_marked [OF erase_fields(1) [OF e], of n] Erase assms(4)
  show ?thesis by simp
next
  case (Clear t')
  with assms(1) have s': "s' = clear t' s" by auto
  have "t' \<noteq> t" using Clear assms(4) by simp
  from wf_other_list [OF assms(2,3) this]
  have "n \<notin> set (onL_of t' s) \<union> set (onceL_of t' s)" by (simp add: lists_def)
  with first_marked [OF nodes_clear, of t' s n] show ?thesis by (simp add: s')
next
  case ClearAll
  with assms(4) show ?thesis by simp
next
  case (Mutate g)
  with assms(1) show ?thesis by auto
qed

lemma run_spares:
  assumes "run as ev s = Some (ev', s')" "wf C s" "n \<in> set (lists t s) \<union> set C"
    "\<forall>a \<in> set as. \<not> kills t n a"
  shows "first s' n = first s n"
  using assms
proof (induction as arbitrary: ev s)
  case Nil
  then show ?case by simp
next
  case (Cons a as)
  from Cons.prems(1) obtain ev1 s1 where
    a: "step a ev s = Some (ev1, s1)" and r: "run as ev1 s1 = Some (ev', s')"
    by (auto split: option.splits)
  have g: "grows s s1" "wf C s1"
    using step_grows [OF a Cons.prems(2)] by auto
  have n1: "n \<in> set (lists t s1) \<union> set C"
    using Cons.prems(3) grows_lists [OF g(1), of n t] by auto
  have "first s1 n = first s n"
    using step_spares [OF a Cons.prems(2,3)] Cons.prems(4) by simp
  moreover have "first s' n = first s1 n"
    using Cons.IH [OF r g(2) n1] Cons.prems(4) by simp
  ultimately show ?case by simp
qed

lemma func_spares:
  assumes "func m ev s = Some (ev', s')" "wf C s" "n \<in> set (lists t s) \<union> set C"
    "\<forall>b g. nodes s m = Some (b, g) \<longrightarrow> (\<forall>a \<in> set (body g). \<not> kills t n a)"
  shows "first s' n = first s n"
  using assms(1)
proof (cases rule: func_cases)
  case (skipped f)
  then show ?thesis by simp
next
  case (called f)
  let ?s = "s\<lparr>trace := trace s @ [Call m f ev]\<rparr>"
  have r: "run (body f) ev ?s = Some (ev', s')"
    using called(2) by (simp add: invoke_def)
  have "first s' n = first ?s n"
    by (rule run_spares [OF r, of C n t]) (use assms called in auto)
  then show ?thesis by (simp add: first_def)
qed

lemma dispatch_spares:
  assumes "dispatch ms ev s = Some (ev', s')" "wf C s" "n \<in> set (lists t s) \<union> set C"
    "set ms \<subseteq> dom (nodes s)"
    "\<forall>m \<in> set ms. \<forall>b g. nodes s m = Some (b, g) \<longrightarrow> (\<forall>a \<in> set (body g). \<not> kills t n a)"
  shows "first s' n = first s n"
  using assms
proof (induction ms arbitrary: ev s)
  case Nil
  then show ?case by simp
next
  case (Cons m ms)
  from Cons.prems(1) obtain ev1 s1 where
    f: "func m ev s = Some (ev1, s1)" and d: "dispatch ms ev1 s1 = Some (ev', s')"
    by (auto split: option.splits)
  have g: "grows s s1" "wf C s1"
    using func_grows [OF f Cons.prems(2)] by auto
  have n1: "n \<in> set (lists t s1) \<union> set C"
    using Cons.prems(3) grows_lists [OF g(1), of n t] by auto
  have sub1: "set ms \<subseteq> dom (nodes s1)"
  proof
    fix k assume "k \<in> set ms"
    then have "k \<in> dom (nodes s)" using Cons.prems(4) by auto
    then show "k \<in> dom (nodes s1)" by (rule grows_dom [OF g(1)])
  qed
  have same: "\<forall>k \<in> set ms. \<forall>b h. nodes s1 k = Some (b, h) \<longrightarrow> (\<forall>a \<in> set (body h). \<not> kills t n a)"
  proof (intro ballI allI impI)
    fix k b h a
    assume k: "k \<in> set ms" and h: "nodes s1 k = Some (b, h)" and a: "a \<in> set (body h)"
    from k Cons.prems(4) obtain b0 h0 where h0: "nodes s k = Some (b0, h0)" by fastforce
    from grows_node [OF g(1) h0] h have "h0 = h" by auto
    with Cons.prems(5) k h0 a show "\<not> kills t n a" by auto
  qed
  have "first s1 n = first s n"
    by (rule func_spares [OF f Cons.prems(2,3)]) (use Cons.prems(5) in auto)
  moreover have "first s' n = first s1 n"
    by (rule Cons.IH [OF d g(2) n1 sub1 same])
  ultimately show ?case by simp
qed

text \<open>A node in the lists of a publish that starts unflagged, and whose flag no
  listener of that type sets, is called by the publish.\<close>

lemma publish_spared:
  assumes "wf [] s" "publish t ev s = Some s'" "n \<in> set (lists t s)" "\<not> first s n"
    "spares t n s"
  shows "n \<in> at ` set (calls_of s s')"
proof -
  from publish_facts [OF assms(1,2)] obtain ev2 s2 cs where
    d: "dispatch (rev (onL_of t s) @ rev (onceL_of t s)) ev (start t s) = Some (ev2, s2)"
    and tr: "trace s' = trace s @ cs"
    and fired: "\<forall>n \<in> set (onL_of t s) \<union> set (onceL_of t s). \<not> first s2 n \<longrightarrow> n \<in> at ` set cs"
    by metis
  have w0: "wf (onceL_of t s) (start t s)"
    by (rule start_wf [OF assms(1)])
  have n0: "n \<in> set (lists t (start t s)) \<union> set (onceL_of t s)"
    using assms(3) by (auto simp: lists_def)
  have sub: "set (rev (onL_of t s) @ rev (onceL_of t s)) \<subseteq> dom (nodes (start t s))"
    using assms(1) by (auto simp: wf_def lists_def)
  have "first s2 n = first (start t s) n"
    by (rule dispatch_spares [OF d w0 n0 sub])
      (use sparesD [OF assms(5)] in \<open>auto simp: lists_def\<close>)
  then have "\<not> first s2 n"
    using assms(4) by (simp add: first_def)
  with fired assms(3) have "n \<in> at ` set cs" by (auto simp: lists_def)
  then show ?thesis using tr by simp
qed

lemma subseq_mem: "subseq xs ys \<Longrightarrow> x \<in> set xs \<Longrightarrow> x \<in> set ys"
  using list_emb_set [of "(=)" xs ys x] by blast

lemma subseq_distinct: "subseq xs ys \<Longrightarrow> distinct ys \<Longrightarrow> distinct xs"
  using subseqs_distinctD [of xs ys] by simp

lemma subseq_is_filter:
  "distinct ys \<Longrightarrow> subseq xs ys \<Longrightarrow> set xs = {y \<in> set ys. P y} \<Longrightarrow> xs = filter P ys"
proof (induction ys arbitrary: xs)
  case Nil
  then show ?case by simp
next
  case (Cons y ys)
  show ?case
  proof (cases "P y")
    case True
    then have yx: "y \<in> set xs" using Cons.prems(3) by simp
    then obtain x xs' where xs: "xs = x # xs'" by (cases xs) auto
    have "x = y"
    proof (rule ccontr)
      assume "x \<noteq> y"
      then have "subseq xs ys" using Cons.prems(2) xs by simp
      then have "y \<in> set ys" using yx by (rule subseq_mem)
      then show False using Cons.prems(1) by simp
    qed
    then have sub: "subseq xs' ys" using Cons.prems(2) xs by simp
    have "y \<notin> set xs'"
      using subseq_mem [OF sub, of y] Cons.prems(1) by auto
    moreover have "insert y (set xs') = insert y {z \<in> set ys. P z}"
      using Cons.prems(3) xs \<open>x = y\<close> True by auto
    moreover have "y \<notin> {z \<in> set ys. P z}"
      using Cons.prems(1) by simp
    ultimately have "set xs' = {z \<in> set ys. P z}"
      by (metis insert_ident)
    from Cons.IH [OF _ sub this] Cons.prems(1) True xs \<open>x = y\<close> show ?thesis by simp
  next
    case False
    then have "y \<notin> set xs" using Cons.prems(3) by simp
    then have sub: "subseq xs ys"
      using Cons.prems(2) by (cases xs) auto
    have "set xs = {z \<in> set ys. P z}"
      using Cons.prems(3) False by auto
    from Cons.IH [OF _ sub this] Cons.prems(1) False show ?thesis by simp
  qed
qed

lemma wf_visits_distinct:
  assumes "wf [] s"
  shows "distinct (rev (onL_of t s) @ rev (onceL_of t s))"
proof -
  have "distinct (onL_of t s @ onceL_of t s)"
    using assms unfolding wf_def lists_def by blast
  then show ?thesis by auto
qed

lemma finish_destroys:
  assumes "wf C s2" "n \<in> set C"
  shows "nodes (finish t C s2) n = None" "n \<notin> set (lists t' (finish t C s2))"
proof -
  show "nodes (finish t C s2) n = None" using assms(2) by simp
  have "n \<notin> set (lists t' s2)" using assms by (auto simp: wf_def)
  then show "n \<notin> set (lists t' (finish t C s2))" by (auto simp: lists_def)
qed

subsection \<open>Registrations made by a listener\<close>

lemma grows_target: "grows s s' \<Longrightarrow> n \<in> set (target a s) \<Longrightarrow> n \<in> set (target a s')"
  unfolding grows_def by (cases a) (auto, (metis Un_iff set_append)+)

lemma step_registers:
  assumes "step a ev s = Some (ev', s')" "registers a g"
  shows "fresh s' = fresh s + 1 \<and> nodes s' (fresh s) = Some (False, g) \<and>
         fresh s \<in> set (target a s')"
  using assms by (cases a) (auto simp: onL_of_on onceL_of_once)

lemma grows_fresh: "grows s s' \<Longrightarrow> fresh s \<le> fresh s'"
  by (simp add: grows_def)

lemma run_registers:
  assumes "run as ev s = Some (ev', s')" "wf C s" "a \<in> set as" "registers a g"
  shows "\<exists>n b. fresh s \<le> n \<and> n < fresh s' \<and> nodes s' n = Some (b, g) \<and> n \<in> set (target a s')"
  using assms
proof (induction as arbitrary: ev s)
  case Nil
  then show ?case by simp
next
  case (Cons x as)
  from Cons.prems(1) obtain ev1 s1 where
    x: "step x ev s = Some (ev1, s1)" and r: "run as ev1 s1 = Some (ev', s')"
    by (auto split: option.splits)
  have g1: "grows s s1" "wf C s1"
    using step_grows [OF x Cons.prems(2)] by auto
  have g2: "grows s1 s'"
    using run_grows [OF r g1(2)] by simp
  show ?case
  proof (cases "a = x")
    case True
    from step_registers [OF x] Cons.prems(4) True have
      n: "fresh s1 = fresh s + 1" "nodes s1 (fresh s) = Some (False, g)"
      "fresh s \<in> set (target a s1)"
      by auto
    from grows_node [OF g2 n(2)] obtain b where "nodes s' (fresh s) = Some (b, g)" by blast
    moreover have "fresh s < fresh s'"
      using grows_fresh [OF g2] n(1) by simp
    moreover have "fresh s \<in> set (target a s')"
      by (rule grows_target [OF g2 n(3)])
    ultimately show ?thesis by blast
  next
    case False
    with Cons.prems(3) have "a \<in> set as" by simp
    from Cons.IH [OF r g1(2) this Cons.prems(4)] obtain n b where
      "fresh s1 \<le> n" "n < fresh s'" "nodes s' n = Some (b, g)" "n \<in> set (target a s')"
      by blast
    moreover have "fresh s \<le> fresh s1" by (rule grows_fresh [OF g1(1)])
    ultimately show ?thesis by (meson order_trans)
  qed
qed

lemma dispatch_trace:
  "dispatch ms ev s = Some (ev', s') \<Longrightarrow> wf C s \<Longrightarrow> \<exists>cs. trace s' = trace s @ cs"
proof (induction ms arbitrary: ev s)
  case Nil
  then show ?case by simp
next
  case (Cons m ms)
  from Cons.prems(1) obtain ev1 s1 where
    f: "func m ev s = Some (ev1, s1)" and d: "dispatch ms ev1 s1 = Some (ev', s')"
    by (auto split: option.splits)
  have w1: "wf C s1"
    using func_grows [OF f Cons.prems(2)] by simp
  from Cons.IH [OF d w1] obtain cs where cs: "trace s' = trace s1 @ cs" by blast
  from f show ?case
  proof (cases rule: func_cases)
    case (skipped h)
    with cs show ?thesis by simp
  next
    case (called h)
    with invoke_grows [OF called(2) Cons.prems(2)] cs show ?thesis by simp
  qed
qed

lemma dispatch_registers:
  assumes "dispatch ms ev s = Some (ev', s')" "wf C s" "c \<in> set (calls_of s s')"
    "a \<in> set (body (callee c))" "registers a g"
  shows "\<exists>n b. fresh s \<le> n \<and> n < fresh s' \<and> nodes s' n = Some (b, g) \<and> n \<in> set (target a s')"
  using assms(1,2,3)
proof (induction ms arbitrary: ev s)
  case Nil
  then show ?case by (simp add: calls_of_def)
next
  case (Cons m ms)
  from Cons.prems(1) obtain ev1 s1 where
    f: "func m ev s = Some (ev1, s1)" and d: "dispatch ms ev1 s1 = Some (ev', s')"
    by (auto split: option.splits)
  have g1: "grows s s1" "wf C s1"
    using func_grows [OF f Cons.prems(2)] by auto
  have g2: "grows s1 s'"
    using dispatch_grows [OF d g1(2)] by simp
  have later: ?case if "c \<in> set (calls_of s1 s')"
  proof -
    from Cons.IH [OF d g1(2) that] obtain n b where
      "fresh s1 \<le> n" "n < fresh s'" "nodes s' n = Some (b, g)" "n \<in> set (target a s')"
      by blast
    moreover have "fresh s \<le> fresh s1" by (rule grows_fresh [OF g1(1)])
    ultimately show ?thesis by (meson order_trans)
  qed
  from f show ?case
  proof (cases rule: func_cases)
    case (skipped h)
    with Cons.prems(3) later show ?thesis by simp
  next
    case (called h)
    let ?s = "s\<lparr>trace := trace s @ [Call m h ev]\<rparr>"
    have tr1: "trace s1 = trace s @ [Call m h ev]"
      using invoke_grows [OF called(2) Cons.prems(2)] by simp
    obtain cs where cs: "trace s' = trace s1 @ cs"
      using dispatch_trace [OF d g1(2)] by blast
    have all: "calls_of s s' = Call m h ev # cs" and rest: "calls_of s1 s' = cs"
      using cs tr1 by simp_all
    show ?thesis
    proof (cases "c = Call m h ev")
      case True
      have r: "run (body h) ev ?s = Some (ev1, s1)"
        using called(2) by (simp add: invoke_def)
      have "a \<in> set (body h)" using assms(4) True by simp
      from run_registers [OF r _ this assms(5), of C] Cons.prems(2) obtain n b where
        n: "fresh s \<le> n" "n < fresh s1" "nodes s1 n = Some (b, g)" "n \<in> set (target a s1)"
        by auto
      from grows_node [OF g2 n(3)] obtain b' where "nodes s' n = Some (b', g)" by blast
      moreover have "n < fresh s'"
        using grows_fresh [OF g2] n(2) by simp
      moreover have "n \<in> set (target a s')"
        by (rule grows_target [OF g2 n(4)])
      ultimately show ?thesis using n(1) by blast
    next
      case False
      with Cons.prems(3) all rest have "c \<in> set (calls_of s1 s')" by simp
      then show ?thesis by (rule later)
    qed
  qed
qed

lemma publish_calls_old:
  assumes "wf [] s" "publish t ev s = Some s'" "c \<in> set (calls_of s s')"
  shows "at c < fresh s"
proof -
  from publish_facts [OF assms(1,2)] obtain cs where
    "trace s' = trace s @ cs" "\<forall>c \<in> set cs. nodes s (at c) = Some (False, callee c)"
    by metis
  with assms(3) have "at c \<in> dom (nodes s)" by auto
  with assms(1) show ?thesis by (simp add: wf_def)
qed

lemma publish_registered:
  assumes "wf [] s" "publish t ev s = Some s'" "c \<in> set (calls_of s s')"
    "a \<in> set (body (callee c))" "registers a g"
  obtains s2 n b where "s' = finish t (onceL_of t s) s2" "wf (onceL_of t s) s2"
    "fresh s \<le> n" "n < fresh s'" "nodes s2 n = Some (b, g)" "n \<in> set (target a s2)"
proof -
  from publish_facts [OF assms(1,2)] obtain ev2 s2 cs where
    d: "dispatch (rev (onL_of t s) @ rev (onceL_of t s)) ev (start t s) = Some (ev2, s2)"
    and s': "s' = finish t (onceL_of t s) s2"
    and w2: "wf (onceL_of t s) s2"
    and tr: "trace s' = trace s @ cs" "trace s2 = trace s @ cs"
    by metis
  have "calls_of (start t s) s2 = calls_of s s'"
    using tr by (simp add: calls_of_def)
  with assms(3) have c: "c \<in> set (calls_of (start t s) s2)" by simp
  from dispatch_registers [OF d start_wf [OF assms(1)] c assms(4,5)] obtain n b where
    "fresh (start t s) \<le> n" "n < fresh s2" "nodes s2 n = Some (b, g)" "n \<in> set (target a s2)"
    by blast
  with that [OF s' w2, of n b] show ?thesis by (simp add: s')
qed

lemma publish_new_once:
  assumes "wf [] s" "publish t ev s = Some s'" "n \<in> set (onceL_of t s')"
  shows "fresh s \<le> n"
proof -
  from publish_facts [OF assms(1,2)] obtain s2 where
    s': "s' = finish t (onceL_of t s) s2" and g: "grows (start t s) s2"
    by metis
  from g obtain p where "onceL_of t s2 = onceL_of t (start t s) @ p"
    "\<forall>n \<in> set p. fresh (start t s) \<le> n"
    unfolding grows_def by blast
  with assms(3) show ?thesis by (simp add: s')
qed

subsection \<open>Setting a flag during a dispatch\<close>

lemma step_kills:
  assumes "step a ev s = Some (ev', s')" "wf C s" "kills t n a" "n \<in> set (lists t s)"
  shows "first s' n"
proof -
  have dom: "n \<in> dom (nodes s)"
    using wf_lists_dom [OF assms(2), of n t] assms(4) by simp
  show ?thesis
  proof (cases a)
    case (Erase c)
    with assms(1) have e: "erase c s = Some s'" by auto
    from first_marked [OF erase_fields(1) [OF e], of n] Erase assms(3) dom
    show ?thesis by simp
  next
    case (Clear t')
    with assms(1,3) have s': "s' = clear t s" by auto
    from first_marked [OF nodes_clear, of t s n] assms(4) dom
    show ?thesis by (simp add: s' lists_def)
  next
    case ClearAll
    with assms(1) have s': "s' = clearAll s" by auto
    from first_marked [OF nodes_clearAll, of s n] assms(4) dom
    show ?thesis by (auto simp: s' lists_def)
  qed (use assms(3) in simp_all)
qed

lemma run_kills:
  assumes "run as ev s = Some (ev', s')" "wf C s" "a \<in> set as" "kills t n a"
    "n \<in> set (lists t s)"
  shows "first s' n"
  using assms(1,2,3,5)
proof (induction as arbitrary: ev s)
  case Nil
  then show ?case by simp
next
  case (Cons x as)
  from Cons.prems(1) obtain ev1 s1 where
    x: "step x ev s = Some (ev1, s1)" and r: "run as ev1 s1 = Some (ev', s')"
    by (auto split: option.splits)
  have g1: "grows s s1" "wf C s1"
    using step_grows [OF x Cons.prems(2)] by auto
  have g2: "grows s1 s'"
    using run_grows [OF r g1(2)] by simp
  show ?case
  proof (cases "a = x")
    case True
    with step_kills [OF x Cons.prems(2) _ Cons.prems(4)] assms(4) have "first s1 n" by simp
    then show ?thesis by (rule grows_first [OF g2])
  next
    case False
    with Cons.prems(3) have "a \<in> set as" by simp
    moreover have "n \<in> set (lists t s1)"
      by (rule grows_lists [OF g1(1) Cons.prems(4)])
    ultimately show ?thesis by (rule Cons.IH [OF r g1(2)])
  qed
qed

lemma dispatch_flagged_not_called:
  assumes "dispatch ms ev s = Some (ev', s')" "wf C s" "set ms \<subseteq> dom (nodes s)" "first s n"
  shows "n \<notin> at ` set (calls_of s s')"
proof -
  from dispatch_calls [OF assms(1,2,3)] obtain cs where
    "trace s' = trace s @ cs" "\<forall>c \<in> set cs. nodes s (at c) = Some (False, callee c)"
    by blast
  with assms(4) show ?thesis by (auto simp: first_def)
qed

lemma dispatch_calls_within:
  assumes "dispatch ms ev s = Some (ev', s')" "wf C s" "set ms \<subseteq> dom (nodes s)"
  shows "at ` set (calls_of s s') \<subseteq> set ms"
proof -
  from dispatch_calls [OF assms(1,2,3)] obtain cs where
    "trace s' = trace s @ cs" "subseq (map at cs) ms"
    by blast
  then show ?thesis using subseq_mem [of "map at cs" ms] by auto
qed

text \<open>A dispatch over \<open>A @ m # B\<close> in which a call of \<open>m\<close> has in its body a call
  that sets the flag of \<open>n\<close>, a node of \<open>B\<close>: \<open>n\<close> is not called, and its flag is
  set at the end.\<close>

lemma dispatch_killed:
  assumes d: "dispatch (A @ m # B) ev s = Some (ev', s')" and w: "wf C s"
    and dom: "set (A @ m # B) \<subseteq> dom (nodes s)" and dis: "distinct (A @ m # B)"
    and c: "c \<in> set (calls_of s s')" "at c = m" "a \<in> set (body (callee c))" "kills t n a"
    and n: "n \<in> set B" "n \<in> set (lists t s)"
  shows "n \<notin> at ` set (calls_of s s') \<and> first s' n"
proof -
  from d obtain evA sA evm sm where
    dA: "dispatch A ev s = Some (evA, sA)" and f: "func m evA sA = Some (evm, sm)"
    and dB: "dispatch B evm sm = Some (ev', s')"
    by (auto simp: dispatch_append split: option.splits)
  have gA: "grows s sA" "wf C sA"
    using dispatch_grows [OF dA w] by auto
  have gm: "grows sA sm" "wf C sm"
    using func_grows [OF f gA(2)] by auto
  have gB: "grows sm s'"
    using dispatch_grows [OF dB gm(2)] by simp
  have domA: "set A \<subseteq> dom (nodes s)" using dom by simp
  have domB: "set B \<subseteq> dom (nodes sm)"
  proof
    fix k assume "k \<in> set B"
    then have "k \<in> dom (nodes s)" using dom by auto
    then show "k \<in> dom (nodes sm)"
      by (intro grows_dom [OF gm(1)] grows_dom [OF gA(1)])
  qed
  obtain csA where csA: "trace sA = trace s @ csA"
    using dispatch_trace [OF dA w] by blast
  obtain csB where csB: "trace s' = trace sm @ csB"
    using dispatch_trace [OF dB gm(2)] by blast
  have inA: "at ` set csA \<subseteq> set A"
    using dispatch_calls_within [OF dA w domA] csA by simp
  have inB: "at ` set csB \<subseteq> set B"
    using dispatch_calls_within [OF dB gm(2) domB] csB by simp
  have mA: "m \<notin> set A" and mB: "m \<notin> set B" and nA: "n \<notin> set A" and nm: "n \<noteq> m"
    using dis n(1) by auto
  from f have killed: "first sm n \<and> trace sm = trace sA @ [c]"
  proof (cases rule: func_cases)
    case (skipped h)
    then have "calls_of s s' = csA @ csB" using csA csB by simp
    with c(1,2) inA inB mA mB show ?thesis by auto
  next
    case (called h)
    have tr: "trace sm = trace sA @ [Call m h evA]"
      using invoke_grows [OF called(2) gA(2)] by simp
    then have "calls_of s s' = csA @ Call m h evA # csB" using csA csB by simp
    with c(1,2) inA inB mA mB have c_eq: "c = Call m h evA" by auto
    let ?s = "sA\<lparr>trace := trace sA @ [Call m h evA]\<rparr>"
    have r: "run (body h) evA ?s = Some (evm, sm)"
      using called(2) by (simp add: invoke_def)
    have "n \<in> set (lists t ?s)"
      using grows_lists [OF gA(1) n(2)] by simp
    moreover have "a \<in> set (body h)" using c(3) c_eq by simp
    moreover have "wf C ?s" using gA(2) by simp
    ultimately have "first sm n"
      using run_kills [OF r _ _ c(4)] by blast
    with tr c_eq show ?thesis by simp
  qed
  then have "n \<notin> at ` set (calls_of sm s')"
    using dispatch_flagged_not_called [OF dB gm(2) domB] by simp
  then have "n \<notin> at ` set csB" using csB by simp
  moreover have "n \<notin> at ` set csA" using inA nA by auto
  moreover have "calls_of s s' = csA @ c # csB"
    using csA csB killed by simp
  ultimately have "n \<notin> at ` set (calls_of s s')"
    using nm c(2) by auto
  moreover have "first s' n"
    using killed grows_first [OF gB] by simp
  ultimately show ?thesis by simp
qed

subsection \<open>Invariants of sequences of calls from outside\<close>

text \<open>A call from outside other than publish is one call of a listener's body.\<close>

lemma exec_step:
  assumes "exec x s = Some s'" "\<forall>t ev. x \<noteq> OpPublish t ev"
  obtains a where "step a (ev :: 'e) s = Some (ev, s')"
proof (cases x)
  case (OpOn t f)
  with assms(1) have "step (On t f) ev s = Some (ev, s')" by auto
  then show ?thesis by (rule that)
next
  case (OpOnce t f)
  with assms(1) have "step (Once t f) ev s = Some (ev, s')" by auto
  then show ?thesis by (rule that)
next
  case (OpErase c)
  with assms(1) have "step (Erase c) ev s = Some (ev, s')" by auto
  then show ?thesis by (rule that)
next
  case (OpClear t)
  with assms(1) have "step (Clear t) ev s = Some (ev, s')" by auto
  then show ?thesis by (rule that)
next
  case OpClearAll
  with assms(1) have "step ClearAll ev s = Some (ev, s')" by auto
  then show ?thesis by (rule that)
next
  case (OpPublish t ev)
  with assms(2) show ?thesis by simp
qed

lemma exec_grows:
  assumes "exec x s = Some s'" "\<forall>t ev. x \<noteq> OpPublish t ev" "wf [] s"
  shows "grows s s' \<and> trace s' = trace s"
proof -
  from exec_step [OF assms(1,2)] obtain a where "step a (undefined :: 'a) s = Some (undefined, s')"
    by blast
  from step_grows [OF this assms(3)] show ?thesis by simp
qed

lemma grows_absent:
  "grows s s' \<Longrightarrow> nodes s n = None \<Longrightarrow> n < fresh s \<Longrightarrow> nodes s' n = None"
  unfolding grows_def by (metis domIff not_less)

lemma exec_traced:
  assumes "exec x s = Some s'" "wf [] s" "traced s"
  shows "traced s'"
proof (cases "\<forall>t ev. x \<noteq> OpPublish t ev")
  case True
  from exec_grows [OF assms(1) True assms(2)] assms(3) show ?thesis
    unfolding traced_def grows_def by fastforce
next
  case False
  then obtain t ev where "x = OpPublish t ev" by blast
  with assms(1) have p: "publish t ev s = Some s'" by simp
  from publish_facts [OF assms(2) p] obtain s2 cs where
    s': "s' = finish t (onceL_of t s) s2" and g: "grows (start t s) s2"
    and tr: "trace s' = trace s @ cs"
    by metis
  have "fresh s \<le> fresh s'"
    using grows_fresh [OF g] by (simp add: s')
  moreover have "at c < fresh s" if "c \<in> set cs" for c
    using publish_calls_old [OF assms(2) p, of c] that tr by simp
  ultimately show ?thesis
    using assms(3) unfolding traced_def tr by fastforce
qed

lemma Emitter_traced: "traced Emitter"
  by (simp add: traced_def Emitter_def)

lemma execs_traced: "execs xs s = Some s' \<Longrightarrow> wf [] s \<Longrightarrow> traced s \<Longrightarrow> traced s'"
proof (induction xs arbitrary: s)
  case Nil
  then show ?case by simp
next
  case (Cons x xs)
  from Cons.prems(1) obtain s1 where x: "exec x s = Some s1" and r: "execs xs s1 = Some s'"
    by (auto split: option.splits)
  from Cons.IH [OF r exec_wf [OF x Cons.prems(2)] exec_traced [OF x Cons.prems(2,3)]]
  show ?case .
qed

lemma wf_dom_fresh: "wf C s \<Longrightarrow> n \<in> dom (nodes s) \<Longrightarrow> n < fresh s"
  unfolding wf_def by blast

lemma count_list_distinct: "distinct xs \<Longrightarrow> count_list xs x \<le> 1"
  by (induction xs) auto

lemma count_list_absent: "x \<notin> set xs \<Longrightarrow> count_list xs x = 0"
  by (induction xs) auto

lemma exec_at_most_once:
  assumes "exec x s = Some s'" "wf [] s" "at_most_once t n s"
  shows "at_most_once t n s'"
proof (cases "\<forall>t ev. x \<noteq> OpPublish t ev")
  case True
  from exec_grows [OF assms(1) True assms(2)] have g: "grows s s'" and tr: "trace s' = trace s"
    by auto
  from g obtain p where p: "onceL_of t s' = onceL_of t s @ p"
    unfolding grows_def by blast
  from assms(3) show ?thesis
    unfolding at_most_once_def
  proof
    assume "n \<in> set (onceL_of t s) \<and> n \<notin> at ` set (trace s)"
    then show "n \<in> set (onceL_of t s') \<and> n \<notin> at ` set (trace s') \<or>
      nodes s' n = None \<and> n < fresh s' \<and> count_list (map at (trace s')) n \<le> 1"
      by (simp add: p tr)
  next
    assume "nodes s n = None \<and> n < fresh s \<and> count_list (map at (trace s)) n \<le> 1"
    then show "n \<in> set (onceL_of t s') \<and> n \<notin> at ` set (trace s') \<or>
      nodes s' n = None \<and> n < fresh s' \<and> count_list (map at (trace s')) n \<le> 1"
      using grows_absent [OF g, of n] grows_fresh [OF g] by (simp add: tr)
  qed
next
  case False
  then obtain t' ev where "x = OpPublish t' ev" by blast
  with assms(1) have pub: "publish t' ev s = Some s'" by simp
  from publish_facts [OF assms(2) pub] obtain ev2 s2 cs where
    s': "s' = finish t' (onceL_of t' s) s2" and g: "grows (start t' s) s2"
    and w2: "wf (onceL_of t' s) s2"
    and tr: "trace s' = trace s @ cs"
    and sub: "subseq (map at cs) (rev (onL_of t' s) @ rev (onceL_of t' s))"
    and unflagged: "\<forall>c \<in> set cs. nodes s (at c) = Some (False, callee c)"
    by metis
  have fr: "fresh s \<le> fresh s'"
    using grows_fresh [OF g] by (simp add: s')
  have once_more: "count_list (map at cs) n \<le> 1"
    by (intro count_list_distinct subseq_distinct [OF sub] wf_visits_distinct [OF assms(2)])
  from assms(3) show ?thesis
    unfolding at_most_once_def
  proof
    assume pend: "n \<in> set (onceL_of t s) \<and> n \<notin> at ` set (trace s)"
    show "n \<in> set (onceL_of t s') \<and> n \<notin> at ` set (trace s') \<or>
      nodes s' n = None \<and> n < fresh s' \<and> count_list (map at (trace s')) n \<le> 1"
    proof (cases "t' = t")
      case True
      have "nodes s' n = None"
        using finish_destroys(1) [OF w2, of n t'] pend True by (simp add: s')
      moreover have "n \<in> set (lists t s) \<union> set []"
        using pend by (simp add: lists_def)
      then have "n < fresh s"
        by (intro wf_dom_fresh [OF assms(2)] wf_lists_dom [OF assms(2)])
      then have "n < fresh s'" using fr by simp
      moreover have "count_list (map at (trace s')) n \<le> 1"
        using once_more pend by (simp add: tr count_list_absent)
      ultimately show ?thesis by simp
    next
      case False
      have "n \<in> set (lists t s) \<union> set []" using pend by (simp add: lists_def)
      then have "n \<notin> set (lists t' s)"
        by (rule wf_other_list [OF assms(2)]) (use False in simp)
      then have "n \<notin> set (map at cs)"
        using subseq_mem [OF sub, of n] by (auto simp: lists_def)
      then have "n \<notin> at ` set (trace s')"
        using pend by (auto simp: tr)
      moreover from g obtain p where "onceL_of t s2 = onceL_of t (start t' s) @ p"
        unfolding grows_def by blast
      then have "n \<in> set (onceL_of t s')"
        using pend False by (simp add: s')
      ultimately show ?thesis by simp
    qed
  next
    assume spent: "nodes s n = None \<and> n < fresh s \<and> count_list (map at (trace s)) n \<le> 1"
    have "nodes s n = None" using spent by simp
    then have "n \<notin> set (map at cs)"
      using unflagged by force
    then have "count_list (map at (trace s')) n \<le> 1"
      using spent by (simp add: tr count_list_absent)
    moreover have "nodes s2 n = None"
      using grows_absent [OF g, of n] spent by simp
    then have "nodes s' n = None" by (simp add: s')
    ultimately show "n \<in> set (onceL_of t s') \<and> n \<notin> at ` set (trace s') \<or>
      nodes s' n = None \<and> n < fresh s' \<and> count_list (map at (trace s')) n \<le> 1"
      using spent fr by simp
  qed
qed

lemma execs_at_most_once:
  "execs xs s = Some s' \<Longrightarrow> wf [] s \<Longrightarrow> at_most_once t n s \<Longrightarrow> at_most_once t n s'"
proof (induction xs arbitrary: s)
  case Nil
  then show ?case by simp
next
  case (Cons x xs)
  from Cons.prems(1) obtain s1 where x: "exec x s = Some s1" and r: "execs xs s1 = Some s'"
    by (auto split: option.splits)
  from Cons.IH [OF r exec_wf [OF x Cons.prems(2)] exec_at_most_once [OF x Cons.prems(2,3)]]
  show ?case .
qed

lemma exec_dead:
  assumes "exec x s = Some s'" "wf [] s" "dead n s"
  shows "dead n s'"
proof (cases "\<forall>t ev. x \<noteq> OpPublish t ev")
  case True
  from exec_grows [OF assms(1) True assms(2)] have g: "grows s s'" and tr: "trace s' = trace s"
    by auto
  from assms(3) grows_absent [OF g, of n] grows_first [OF g, of n] grows_fresh [OF g]
  show ?thesis unfolding dead_def tr by auto
next
  case False
  then obtain t ev where "x = OpPublish t ev" by blast
  with assms(1) have pub: "publish t ev s = Some s'" by simp
  from publish_facts [OF assms(2) pub] obtain ev2 s2 cs where
    s': "s' = finish t (onceL_of t s) s2" and g: "grows (start t s) s2"
    and tr: "trace s' = trace s @ cs"
    and unflagged: "\<forall>c \<in> set cs. nodes s (at c) = Some (False, callee c)"
    by metis
  have "nodes s n = None \<or> first s n" using assms(3) by (simp add: dead_def)
  then have "n \<notin> at ` set cs"
    using unflagged unfolding first_def by force
  moreover have "nodes s' n = None \<or> first s' n"
  proof (cases "nodes s n")
    case None
    then have "nodes s2 n = None"
      using grows_absent [OF g, of n] assms(3) by (simp add: dead_def)
    then show ?thesis by (simp add: s')
  next
    case (Some a)
    with assms(3) have "first (start t s) n" by (simp add: dead_def first_def)
    then have "first s2 n" by (rule grows_first [OF g])
    then show ?thesis by (auto simp: s' first_def)
  qed
  moreover have "fresh s \<le> fresh s'"
    using grows_fresh [OF g] by (simp add: s')
  ultimately show ?thesis
    using assms(3) unfolding dead_def tr by auto
qed

lemma execs_dead: "execs xs s = Some s' \<Longrightarrow> wf [] s \<Longrightarrow> dead n s \<Longrightarrow> dead n s'"
proof (induction xs arbitrary: s)
  case Nil
  then show ?case by simp
next
  case (Cons x xs)
  from Cons.prems(1) obtain s1 where x: "exec x s = Some s1" and r: "execs xs s1 = Some s'"
    by (auto split: option.splits)
  from Cons.IH [OF r exec_wf [OF x Cons.prems(2)] exec_dead [OF x Cons.prems(2,3)]]
  show ?case .
qed

subsection \<open>The handlers stay where they are\<close>

lemma keeps_refl [simp]: "keeps s s"
  by (simp add: keeps_def)

lemma keeps_trans:
  assumes "keeps s s'" "keeps s' s''"
  shows "keeps s s''"
  unfolding keeps_def
proof (intro conjI allI impI)
  fix t h assume "slot t s = Some h"
  then obtain h' where h': "slot t s' = Some h'" "addr h' = addr h"
    using assms(1) unfolding keeps_def by blast
  then obtain h'' where "slot t s'' = Some h''" "addr h'' = addr h'"
    using assms(2) unfolding keeps_def by blast
  with h' show "\<exists>h'. slot t s'' = Some h' \<and> addr h' = addr h" by simp
next
  assume "made s = live s"
  then have "made s' = live s'" using assms(1) by (simp add: keeps_def)
  then show "made s'' = live s''" using assms(2) by (simp add: keeps_def)
qed

lemma filter_update_same:
  "t < length xs \<Longrightarrow> P y = P (xs ! t) \<Longrightarrow> length (filter P (xs[t := y])) = length (filter P xs)"
proof (induction xs arbitrary: t)
  case Nil
  then show ?case by simp
next
  case (Cons x xs)
  then show ?case by (cases t) auto
qed

lemma filter_update_new:
  "t < length xs \<Longrightarrow> \<not> P (xs ! t) \<Longrightarrow> P y \<Longrightarrow>
     length (filter P (xs[t := y])) = Suc (length (filter P xs))"
proof (induction xs arbitrary: t)
  case Nil
  then show ?case by simp
next
  case (Cons x xs)
  then show ?case by (cases t) auto
qed

lemma live_fields [simp]:
  "live (s\<lparr>nodes := h\<rparr>) = live s" "live (s\<lparr>fresh := k\<rparr>) = live s"
  "live (s\<lparr>trace := tr\<rparr>) = live s"
  by (simp_all add: live_def)

lemma live_handlers_cong: "handlers s' = handlers s \<Longrightarrow> live s' = live s"
  by (simp add: live_def)

lemma live_upd_handler [simp]: "live (upd_handler t f s) = live s"
proof (cases "t < length (handlers s)")
  case True
  then show ?thesis
    unfolding live_def upd_handler_def by (simp add: filter_update_same)
next
  case False
  then show ?thesis by (simp add: live_def upd_handler_def list_update_beyond)
qed

lemma live_handler: "live (handler t s) = (if slot t s = None then live s + 1 else live s)"
proof (cases "t < length (handlers s)")
  case True
  then show ?thesis
    by (auto simp: live_def handler_def slot_def filter_update_new)
next
  case False
  let ?xs = "handlers s @ replicate (t + 1 - length (handlers s)) None"
  have "t < length ?xs" "?xs ! t = None"
    using False by (auto simp: nth_append)
  then have "length (filter (\<lambda>h. h \<noteq> None) (?xs[t := Some \<lparr>addr = made s, onceL = [], onL = []\<rparr>]))
        = Suc (length (filter (\<lambda>h. h \<noteq> None) ?xs))"
    by (intro filter_update_new) simp_all
  with False show ?thesis
    by (simp add: live_def handler_def slot_def Let_def nth_append)
qed

lemma keeps_handler: "keeps s (handler t s)"
  unfolding keeps_def by (auto simp: slot_handler made_handler live_handler)

lemma keeps_upd_handler: "(\<And>h. addr (f h) = addr h) \<Longrightarrow> keeps s (upd_handler t f s)"
  unfolding keeps_def by (auto simp: slot_upd_handler)

lemma keeps_same:
  "handlers s' = handlers s \<Longrightarrow> made s' = made s \<Longrightarrow> keeps s s'"
  unfolding keeps_def by (simp add: slot_def live_def)

lemma keeps_fields [simp]:
  "keeps s (s'\<lparr>nodes := h\<rparr>) = keeps s s'" "keeps s (s'\<lparr>fresh := k\<rparr>) = keeps s s'"
  "keeps s (s'\<lparr>trace := tr\<rparr>) = keeps s s'"
  "keeps (s\<lparr>trace := tr\<rparr>) s' = keeps s s'"
  by (simp_all add: keeps_def)

lemma on_keeps: "keeps s (snd (on t f s))"
proof -
  have "keeps (handler t s) (snd (on t f s))"
    unfolding on_def Handler_on_def Let_def snd_conv
    by (rule keeps_trans [OF _ keeps_upd_handler]) simp_all
  with keeps_handler show ?thesis by (rule keeps_trans)
qed

lemma once_keeps: "keeps s (snd (once t f s))"
proof -
  have "keeps (handler t s) (snd (once t f s))"
    unfolding once_def Handler_once_def Let_def snd_conv
    by (rule keeps_trans [OF _ keeps_upd_handler]) simp_all
  with keeps_handler show ?thesis by (rule keeps_trans)
qed

lemma erase_keeps: "erase c s = Some s' \<Longrightarrow> keeps s s'"
  unfolding erase_Some using keeps_handler [of s "ctype c"] by auto

lemma clear_keeps: "keeps s (clear t s)"
proof -
  have "keeps (handler t s) (clear t s)"
    unfolding clear_def by (rule keeps_same) simp_all
  with keeps_handler show ?thesis by (rule keeps_trans)
qed

lemma clearAll_keeps: "keeps s (clearAll s)"
  by (rule keeps_same) simp_all

lemma step_keeps: "step a ev s = Some (ev', s') \<Longrightarrow> keeps s s'"
  by (cases a) (auto simp: on_keeps once_keeps clear_keeps clearAll_keeps erase_keeps)

lemma run_keeps: "run as ev s = Some (ev', s') \<Longrightarrow> keeps s s'"
proof (induction as arbitrary: ev s)
  case Nil
  then show ?case by simp
next
  case (Cons a as)
  then show ?case
    by (auto split: option.splits intro: keeps_trans dest!: step_keeps)
qed

lemma func_keeps:
  assumes "func n ev s = Some (ev', s')"
  shows "keeps s s'"
  using assms
proof (cases rule: func_cases)
  case (skipped f)
  then show ?thesis by simp
next
  case (called f)
  from run_keeps [OF called(2) [unfolded invoke_def]] show ?thesis by simp
qed

lemma dispatch_keeps: "dispatch ns ev s = Some (ev', s') \<Longrightarrow> keeps s s'"
proof (induction ns arbitrary: ev s)
  case Nil
  then show ?case by simp
next
  case (Cons n ns)
  then show ?case
    by (auto split: option.splits intro: keeps_trans dest!: func_keeps)
qed

lemma start_keeps: "keeps s (start t s)"
  unfolding start_def by (rule keeps_trans [OF keeps_handler keeps_upd_handler]) simp

lemma finish_keeps: "keeps s (finish t C s)"
proof -
  have "keeps s (upd_handler t (\<lambda>h. h\<lparr>onL := filter (\<lambda>n. \<not> first s n) (onL h)\<rparr>) s)"
    by (rule keeps_upd_handler) simp
  moreover have "keeps (upd_handler t (\<lambda>h. h\<lparr>onL := filter (\<lambda>n. \<not> first s n) (onL h)\<rparr>) s)
      (finish t C s)"
    unfolding finish_def remove_if_def by (rule keeps_same) simp_all
  ultimately show ?thesis by (rule keeps_trans)
qed

lemma publish_keeps:
  assumes "publish t ev s = Some s'" "wf [] s"
  shows "keeps s s'"
proof -
  from publish_facts [OF assms(2,1)] obtain ev2 s2 where
    d: "dispatch (rev (onL_of t s) @ rev (onceL_of t s)) ev (start t s) = Some (ev2, s2)"
    and s': "s' = finish t (onceL_of t s) s2"
    by metis
  from start_keeps dispatch_keeps [OF d] have "keeps s s2" by (rule keeps_trans)
  then show ?thesis unfolding s' using finish_keeps by (rule keeps_trans)
qed

lemma exec_keeps:
  assumes "exec x s = Some s'" "wf [] s"
  shows "keeps s s'"
proof (cases "\<forall>t ev. x \<noteq> OpPublish t ev")
  case True
  from exec_step [OF assms(1) True] obtain a where "step a (undefined :: 'a) s = Some (undefined, s')"
    by blast
  then show ?thesis by (rule step_keeps)
next
  case False
  then obtain t ev where "x = OpPublish t ev" by blast
  with assms show ?thesis by (auto intro: publish_keeps)
qed

lemma execs_keeps: "execs xs s = Some s' \<Longrightarrow> wf [] s \<Longrightarrow> keeps s s'"
proof (induction xs arbitrary: s)
  case Nil
  then show ?case by simp
next
  case (Cons x xs)
  from Cons.prems(1) obtain s1 where x: "exec x s = Some s1" and r: "execs xs s1 = Some s'"
    by (auto split: option.splits)
  from exec_keeps [OF x Cons.prems(2)] Cons.IH [OF r exec_wf [OF x Cons.prems(2)]]
  show ?case by (rule keeps_trans)
qed

lemma handler_present: "slot t s \<noteq> None \<Longrightarrow> handler t s = s"
  by (auto simp: handler_def slot_def Let_def split: if_splits)

lemma Emitter_live: "made (Emitter :: 'e emitter) = live (Emitter :: 'e emitter)"
  by (simp add: Emitter_def live_def)

subsection \<open>Clearing\<close>

lemma slot_tombstone [simp]: "slot t (tombstone n s) = slot t s"
  by (rule slot_handlers_cong) simp

lemma erase_is_tombstone:
  assumes "slot t s \<noteq> None" "n \<in> dom (nodes s)"
  shows "erase (Connection t n) s = Some (tombstone n s)"
  using assms by (auto simp: erase_def handler_present Handler_erase_def tombstone_def)

lemma erases_are_tombstones:
  "slot t s \<noteq> None \<Longrightarrow> set ns \<subseteq> dom (nodes s) \<Longrightarrow>
     execs (map (\<lambda>n. OpErase (Connection t n)) ns) s = Some (fold tombstone ns s)"
proof (induction ns arbitrary: s)
  case Nil
  then show ?case by simp
next
  case (Cons n ns)
  have e: "erase (Connection t n) s = Some (tombstone n s)"
    by (rule erase_is_tombstone) (use Cons.prems in auto)
  have "set ns \<subseteq> dom (nodes (tombstone n s))"
    using Cons.prems(2) by (simp add: nodes_tombstone)
  with Cons.IH [of "tombstone n s"] Cons.prems(1) e show ?case by simp
qed

lemma marked_all_first:
  assumes "nodes s' = mark N (nodes (s :: 'e emitter))" "set ns \<subseteq> N"
    "set ns \<subseteq> dom (nodes s)"
  shows "list_all (first s') ns"
  unfolding list_all_iff using first_marked [OF assms(1)] assms(2,3) by blast

subsection \<open>Event types without a handler\<close>

lemma slot_release [simp]: "slot t (release ns s) = slot t s"
  by (rule slot_handlers_cong) simp

lemma empty_all_iff: "empty_all s \<longleftrightarrow> (\<forall>t. slot t s = None \<or> Handler_empty t s)"
proof -
  have "Handler_empty t s" if "\<not> t < length (handlers s)" for t
    using lists_beyond [OF that] by (simp add: Handler_empty_def)
  then show ?thesis
    unfolding empty_all_def list_all_iff slot_def by auto
qed

lemma Handler_empty_cong:
  assumes "onL_of t s' = onL_of t s" "onceL_of t s' = onceL_of t s" "nodes s' = nodes s"
  shows "Handler_empty t s' = Handler_empty t s"
proof -
  have "first s' = first s" using assms(3) by (simp add: first_def fun_eq_iff)
  with assms(1,2) show ?thesis by (simp add: Handler_empty_def)
qed

lemma exec_unspent:
  assumes "exec x s = Some s'" "wf [] s" "traced s" "unspent s"
  shows "unspent s'"
  unfolding unspent_def
proof (intro allI ballI)
  fix t n assume n: "n \<in> set (onceL_of t s')"
  show "n \<notin> at ` set (trace s')"
  proof (cases "\<forall>t ev. x \<noteq> OpPublish t ev")
    case True
    from exec_grows [OF assms(1) True assms(2)] have g: "grows s s'" and tr: "trace s' = trace s"
      by auto
    from g obtain p where p: "onceL_of t s' = onceL_of t s @ p" "\<forall>n \<in> set p. fresh s \<le> n"
      unfolding grows_def by blast
    show ?thesis
    proof (cases "n \<in> set (onceL_of t s)")
      case True
      with assms(4) show ?thesis by (simp add: unspent_def tr)
    next
      case False
      with n p have "fresh s \<le> n" by auto
      with assms(3) show ?thesis unfolding traced_def tr by fastforce
    qed
  next
    case False
    then obtain t' ev where "x = OpPublish t' ev" by blast
    with assms(1) have pub: "publish t' ev s = Some s'" by simp
    from publish_facts [OF assms(2) pub] obtain ev2 s2 cs where
      s': "s' = finish t' (onceL_of t' s) s2" and g: "grows (start t' s) s2"
      and tr: "trace s' = trace s @ cs"
      and sub: "subseq (map at cs) (rev (onL_of t' s) @ rev (onceL_of t' s))"
      by metis
    from g obtain p where p: "onceL_of t s2 = onceL_of t (start t' s) @ p"
      "\<forall>n \<in> set p. fresh (start t' s) \<le> n"
      unfolding grows_def by blast
    have old: "at c < fresh s" if "c \<in> set cs" for c
      using publish_calls_old [OF assms(2) pub, of c] that tr by simp
    show ?thesis
    proof (cases "n \<in> set p")
      case True
      with p(2) have "fresh s \<le> n" by simp
      moreover have "\<forall>c \<in> set (trace s). at c < fresh s"
        using assms(3) by (simp add: traced_def)
      ultimately show ?thesis using old unfolding tr by fastforce
    next
      case False
      with n p(1) have ne: "t \<noteq> t'" and n0: "n \<in> set (onceL_of t s)"
        by (auto simp: s' split: if_splits)
      have "n \<in> set (lists t s) \<union> set []" using n0 by (simp add: lists_def)
      then have "n \<notin> set (lists t' s)"
        by (rule wf_other_list [OF assms(2)]) (use ne in simp)
      then have "n \<notin> set (map at cs)"
        using subseq_mem [OF sub, of n] by (auto simp: lists_def)
      moreover have "n \<notin> at ` set (trace s)"
        using assms(4) n0 by (simp add: unspent_def)
      ultimately show ?thesis by (auto simp: tr)
    qed
  qed
qed

lemma Emitter_unspent: "unspent Emitter"
  by (simp add: unspent_def Emitter_def)

lemma execs_unspent:
  "execs xs s = Some s' \<Longrightarrow> wf [] s \<Longrightarrow> traced s \<Longrightarrow> unspent s \<Longrightarrow> unspent s'"
proof (induction xs arbitrary: s)
  case Nil
  then show ?case by simp
next
  case (Cons x xs)
  from Cons.prems(1) obtain s1 where x: "exec x s = Some s1" and r: "execs xs s1 = Some s'"
    by (auto split: option.splits)
  show ?case
    by (rule Cons.IH [OF r exec_wf [OF x Cons.prems(2)] exec_traced [OF x Cons.prems(2,3)]
          exec_unspent [OF x Cons.prems(2,3,4)]])
qed

lemma reachable_unspent: "execs xs Emitter = Some s \<Longrightarrow> unspent s"
  by (rule execs_unspent [OF _ Emitter_wf Emitter_traced Emitter_unspent])

subsection \<open>A publish returns\<close>

lemma grows_valid: "grows s s' \<Longrightarrow> valid s a \<Longrightarrow> valid s' a"
  using grows_dom [of s s'] by (cases a) (auto simp: domIff)

lemma step_returns: "valid s a \<Longrightarrow> \<exists>r. step a ev s = Some r"
  by (cases a) (auto simp: erase_None [symmetric])

lemma run_returns:
  "wf C s \<Longrightarrow> \<forall>a \<in> set as. valid s a \<Longrightarrow> \<exists>r. run as ev s = Some r"
proof (induction as arbitrary: ev s)
  case Nil
  then show ?case by simp
next
  case (Cons a as)
  from step_returns [of s a ev] Cons.prems(2) obtain ev1 s1 where
    a: "step a ev s = Some (ev1, s1)" by fastforce
  have g: "grows s s1" "wf C s1"
    using step_grows [OF a Cons.prems(1)] by auto
  have "\<forall>a \<in> set as. valid s1 a"
    using Cons.prems(2) grows_valid [OF g(1)] by simp
  from Cons.IH [OF g(2) this, of ev1] a show ?case by simp
qed

lemma dispatch_returns:
  assumes "wf C s" "set ns \<subseteq> dom (nodes s)"
    "\<forall>n \<in> set ns. \<forall>b g. nodes s n = Some (b, g) \<longrightarrow> list_all (valid s) (body g)"
  shows "\<exists>r. dispatch ns ev s = Some r"
  using assms
proof (induction ns arbitrary: ev s)
  case Nil
  then show ?case by simp
next
  case (Cons n ns)
  from Cons.prems(2) obtain b g where n: "nodes s n = Some (b, g)" by fastforce
  have "\<exists>r. func n ev s = Some r"
  proof (cases b)
    case True
    with n show ?thesis by (simp add: func_def)
  next
    case False
    have "\<forall>a \<in> set (body g). valid (s\<lparr>trace := trace s @ [Call n g ev]\<rparr>) a"
    proof
      fix a assume "a \<in> set (body g)"
      with Cons.prems(3) n have "valid s a" by (auto simp: list_all_iff)
      then show "valid (s\<lparr>trace := trace s @ [Call n g ev]\<rparr>) a" by (cases a) simp_all
    qed
    from run_returns [OF _ this, of C ev] Cons.prems(1) n False
    show ?thesis by (simp add: func_def invoke_def)
  qed
  then obtain ev1 s1 where f: "func n ev s = Some (ev1, s1)" by fastforce
  have g: "grows s s1" "wf C s1"
    using func_grows [OF f Cons.prems(1)] by auto
  have sub1: "set ns \<subseteq> dom (nodes s1)"
  proof
    fix k assume "k \<in> set ns"
    then have "k \<in> dom (nodes s)" using Cons.prems(2) by auto
    then show "k \<in> dom (nodes s1)" by (rule grows_dom [OF g(1)])
  qed
  have ok1: "\<forall>k \<in> set ns. \<forall>b h. nodes s1 k = Some (b, h) \<longrightarrow> list_all (valid s1) (body h)"
  proof (intro ballI allI impI)
    fix k b h
    assume k: "k \<in> set ns" and h: "nodes s1 k = Some (b, h)"
    from k Cons.prems(2) obtain b0 h0 where h0: "nodes s k = Some (b0, h0)" by fastforce
    from grows_node [OF g(1) h0] h have "h0 = h" by auto
    with Cons.prems(3) k h0 have "list_all (valid s) (body h)" by auto
    then show "list_all (valid s1) (body h)"
      using grows_valid [OF g(1)] unfolding list_all_iff by blast
  qed
  from Cons.IH [OF g(2) sub1 ok1, of ev1] f show ?case by simp
qed

lemma publish_returns:
  assumes "wf [] s" "sound t s"
  shows "\<exists>s'. publish t ev s = Some s'"
proof -
  have ok: "\<forall>n \<in> set (rev (onL_of t s) @ rev (onceL_of t s)).
      \<forall>b g. nodes (start t s) n = Some (b, g) \<longrightarrow> list_all (valid (start t s)) (body g)"
  proof (intro ballI allI impI)
    fix n b g
    assume n: "n \<in> set (rev (onL_of t s) @ rev (onceL_of t s))"
      and g: "nodes (start t s) n = Some (b, g)"
    from n have "n \<in> set (lists t s)" by (auto simp: lists_def)
    with assms(2) have "case nodes s n of None \<Rightarrow> True | Some (b, g) \<Rightarrow> list_all (valid s) (body g)"
      unfolding sound_def by blast
    with g have "list_all (valid s) (body g)" by simp
    moreover have "valid (start t s) = valid s"
    proof
      fix a show "valid (start t s) a = valid s a" by (cases a) simp_all
    qed
    ultimately show "list_all (valid (start t s)) (body g)" by simp
  qed
  have sub: "set (rev (onL_of t s) @ rev (onceL_of t s)) \<subseteq> dom (nodes (start t s))"
    using assms(1) by (auto simp: wf_def lists_def)
  from dispatch_returns [OF start_wf [OF assms(1)] sub ok, of ev]
  show ?thesis by (auto simp: publish_dispatch [OF assms(1)])
qed

subsection \<open>The properties, for a publish that has returned\<close>

lemma once_during_publish_deferred_returned:
  assumes "execs xs Emitter = Some s" "publish t ev s = Some s'"
  shows "onceL_of t (start t s) = [] \<and>
    map_option (finish t (onceL_of t s) \<circ> snd)
      (dispatch (rev (onL_of t s) @ rev (onceL_of t s)) ev (start t s)) = Some s' \<and>
    (\<forall>c \<in> set (calls_of s s'). at c < fresh s) \<and>
    (\<forall>c \<in> set (calls_of s s'). \<forall>t' g. Once t' g \<in> set (body (callee c)) \<longrightarrow>
       (\<exists>n b. fresh s \<le> n \<and> n \<in> set (onceL_of t' s') \<and> nodes s' n = Some (b, g))) \<and>
    (\<forall>n \<in> set (onceL_of t s'). fresh s \<le> n \<and> n \<notin> at ` set (calls_of s s') \<and>
       (\<forall>ev' s''. publish t ev' s' = Some s'' \<and> \<not> first s' n \<and> spares t n s' \<longrightarrow>
          n \<in> at ` set (calls_of s' s'')))"
proof -
  have w: "wf [] s" by (rule reachable_wf [OF assms(1)])
  have w': "wf [] s'" by (rule publish_wf [OF assms(2) w])
  have eq: "map_option (finish t (onceL_of t s) \<circ> snd)
      (dispatch (rev (onL_of t s) @ rev (onceL_of t s)) ev (start t s)) = Some s'"
    using assms(2) unfolding publish_dispatch [OF w] by (auto split: option.splits)
  have old: "\<forall>c \<in> set (calls_of s s'). at c < fresh s"
    using publish_calls_old [OF w assms(2)] by blast
  have kept: "\<exists>n b. fresh s \<le> n \<and> n \<in> set (onceL_of t' s') \<and> nodes s' n = Some (b, g)"
    if "c \<in> set (calls_of s s')" "Once t' g \<in> set (body (callee c))" for c t' g
  proof -
    have "registers (Once t' g) g" by simp
    from publish_registered [OF w assms(2) that this] obtain s2 n b where
      n: "s' = finish t (onceL_of t s) s2" "wf (onceL_of t s) s2" "fresh s \<le> n"
      "nodes s2 n = Some (b, g)" "n \<in> set (target (Once t' g) s2)"
      by metis
    have in2: "n \<in> set (onceL_of t' s2)" using n(5) by simp
    then have l: "n \<in> set (lists t' s2)" by (simp add: lists_def)
    have "n \<notin> set (onceL_of t s)"
      using n(2) l unfolding wf_def by blast
    moreover have "n \<notin> set (onL_of t s2)"
    proof (cases "t' = t")
      case True
      with n(2) in2 show ?thesis by (auto simp: wf_def lists_def)
    next
      case False
      with n(2) l show ?thesis unfolding wf_def lists_def by (metis Un_iff disjoint_iff set_append)
    qed
    ultimately have "nodes s' n = Some (b, g)" using n(1,4) by simp
    moreover have "n \<in> set (onceL_of t' s')" using in2 n(1) by simp
    ultimately show ?thesis using n(3) by blast
  qed
  have pending: "fresh s \<le> n \<and> n \<notin> at ` set (calls_of s s') \<and>
       (\<forall>ev' s''. publish t ev' s' = Some s'' \<and> \<not> first s' n \<and> spares t n s' \<longrightarrow>
          n \<in> at ` set (calls_of s' s''))"
    if n: "n \<in> set (onceL_of t s')" for n
  proof (intro conjI allI impI)
    show new: "fresh s \<le> n" by (rule publish_new_once [OF w assms(2) n])
    show "n \<notin> at ` set (calls_of s s')" using old new by force
  next
    fix ev' s''
    assume "publish t ev' s' = Some s'' \<and> \<not> first s' n \<and> spares t n s'"
    then show "n \<in> at ` set (calls_of s' s'')"
      using publish_spared [OF w', of t ev' s'' n] n by (simp add: lists_def)
  qed
  from eq old kept pending show ?thesis by (simp; blast)
qed

lemma erase_during_publish_returned:
  assumes "execs xs Emitter = Some s" "publish t ev s = Some s'"
    and "c \<in> set (calls_of s s')" "a \<in> set (body (callee c))" "kills t n a"
    and "onL_of t s = X @ n # Y @ at c # Z"
  shows "n \<notin> at ` set (calls_of s s') \<and> n \<notin> set (onL_of t s') \<and> nodes s' n = None \<and>
    (\<forall>k \<in> set (onL_of t s'). \<not> first s' k)"
proof -
  have w: "wf [] s" by (rule reachable_wf [OF assms(1)])
  let ?C = "onceL_of t s"
  let ?A = "rev Z" and ?B = "rev Y @ n # rev X @ rev ?C"
  from publish_facts [OF w assms(2)] obtain ev2 s2 cs where
    d: "dispatch (rev (onL_of t s) @ rev ?C) ev (start t s) = Some (ev2, s2)"
    and s': "s' = finish t ?C s2"
    and g: "grows (start t s) s2" and w2: "wf ?C s2"
    and tr: "trace s' = trace s @ cs" "trace s2 = trace s @ cs"
    by metis
  have visits: "rev (onL_of t s) @ rev ?C = ?A @ at c # ?B"
    by (simp add: assms(6))
  have w0: "wf ?C (start t s)" by (rule start_wf [OF w])
  have calls: "calls_of (start t s) s2 = calls_of s s'"
    using tr by (simp add: calls_of_def)
  have n_on: "n \<in> set (onL_of t s)" by (simp add: assms(6))
  have "n \<notin> at ` set (calls_of (start t s) s2) \<and> first s2 n"
  proof (rule dispatch_killed [OF d [unfolded visits] w0 _ _ _ refl assms(4,5)])
    show "set (?A @ at c # ?B) \<subseteq> dom (nodes (start t s))"
      unfolding visits [symmetric] using w by (auto simp: wf_def lists_def)
    show "distinct (?A @ at c # ?B)"
      unfolding visits [symmetric] by (rule wf_visits_distinct [OF w])
    show "c \<in> set (calls_of (start t s) s2)"
      using assms(3) calls by simp
    show "n \<in> set ?B" by simp
    show "n \<in> set (lists t (start t s))"
      using n_on by (simp add: lists_def)
  qed
  then have not_called: "n \<notin> at ` set (calls_of s s')" and flag: "first s2 n"
    using calls by simp_all
  from g obtain p where "onL_of t s2 = p @ onL_of t (start t s)"
    unfolding grows_def by blast
  with n_on have in2: "n \<in> set (onL_of t s2)" by simp
  have gone: "n \<notin> set (onL_of t s')" "nodes s' n = None"
    using flag in2 by (simp_all add: s')
  have clean: "\<not> first s' k" if "k \<in> set (onL_of t s')" for k
  proof -
    from that have "k \<in> set (onL_of t s2)" "\<not> first s2 k" by (simp_all add: s')
    moreover from this w2 have "k \<notin> set ?C"
      unfolding wf_def lists_def by auto
    ultimately show ?thesis by (simp add: s' first_def)
  qed
  from not_called gone clean show ?thesis by blast
qed

lemma publish_shares_event_returned:
  assumes "execs xs Emitter = Some s" "publish t ev s = Some s'"
  shows "map seen (calls_of s s') = seens ev (calls_of s s') \<and>
    (\<forall>c \<in> set (calls_of s s'). nodes s (at c) = Some (False, callee c)) \<and>
    (\<forall>i. Suc i < length (calls_of s s') \<longrightarrow>
       seen (calls_of s s' ! Suc i) = effect (callee (calls_of s s' ! i)) (seen (calls_of s s' ! i)))"
proof -
  have w: "wf [] s" by (rule reachable_wf [OF assms(1)])
  from publish_facts [OF w assms(2)] obtain cs where
    cs: "trace s' = trace s @ cs" "\<forall>c \<in> set cs. nodes s (at c) = Some (False, callee c)"
      "map seen cs = seens ev cs"
    by metis
  have c: "calls_of s s' = cs"
    using cs(1) by simp
  have "seen (cs ! Suc i) = effect (callee (cs ! i)) (seen (cs ! i))" if "Suc i < length cs" for i
  proof -
    have "seen (cs ! Suc i) = map seen cs ! Suc i" "seen (cs ! i) = map seen cs ! i"
      using that by simp_all
    then show ?thesis
      using that by (simp add: cs(3) seens_nth take_Suc_conv_app_nth)
  qed
  with cs c show ?thesis by simp
qed

lemma on_during_publish_deferred_returned:
  assumes "execs xs Emitter = Some s" "publish t ev s = Some s'"
  shows "for_each_rev (onL_of t) (begin_it (onL_of t (start t s))) None ev (start t s)
      = dispatch (rev (onL_of t s)) ev (start t s) \<and>
    (\<forall>c \<in> set (calls_of s s'). at c < fresh s) \<and>
    (\<forall>c \<in> set (calls_of s s'). \<forall>g. On t g \<in> set (body (callee c)) \<longrightarrow>
       (\<exists>n. fresh s \<le> n \<and> n < fresh s' \<and>
          (n \<in> set (onL_of t s') \<and> nodes s' n = Some (False, g) \<or>
           n \<notin> set (onL_of t s') \<and> nodes s' n = None))) \<and>
    (\<forall>n \<in> set (onL_of t s'). \<not> first s' n) \<and>
    (\<forall>n \<in> set (onL_of t s'). \<forall>ev' s''. publish t ev' s' = Some s'' \<longrightarrow>
       (spares t n s' \<longrightarrow> n \<in> at ` set (calls_of s' s'')) \<and>
       (n \<in> set (onL_of t s'') \<longrightarrow> n \<in> at ` set (calls_of s' s'')))"
proof -
  have w: "wf [] s" by (rule reachable_wf [OF assms(1)])
  have w': "wf [] s'" by (rule publish_wf [OF assms(2) w])
  have live: "for_each_rev (onL_of t) (begin_it (onL_of t (start t s))) None ev (start t s)
      = dispatch (rev (onL_of t s)) ev (start t s)"
    using for_each_rev_live [OF start_wf [OF w], of t t ev] by simp
  have old: "\<forall>c \<in> set (calls_of s s'). at c < fresh s"
    using publish_calls_old [OF w assms(2)] by blast
  have made: "\<exists>n. fresh s \<le> n \<and> n < fresh s' \<and>
          (n \<in> set (onL_of t s') \<and> nodes s' n = Some (False, g) \<or>
           n \<notin> set (onL_of t s') \<and> nodes s' n = None)"
    if "c \<in> set (calls_of s s')" "On t g \<in> set (body (callee c))" for c g
  proof -
    have "registers (On t g) g" by simp
    from publish_registered [OF w assms(2) that this] obtain s2 n b where
      n: "s' = finish t (onceL_of t s) s2" "wf (onceL_of t s) s2" "fresh s \<le> n" "n < fresh s'"
      "nodes s2 n = Some (b, g)" "n \<in> set (target (On t g) s2)"
      by metis
    have in2: "n \<in> set (onL_of t s2)" using n(6) by simp
    then have "n \<notin> set (onceL_of t s)"
      using n(2) unfolding wf_def lists_def by auto
    with in2 n(1,5) have
      "n \<in> set (onL_of t s') \<and> nodes s' n = Some (False, g) \<or>
       n \<notin> set (onL_of t s') \<and> nodes s' n = None"
      by (cases b) (auto simp: first_def)
    with n(3,4) show ?thesis by blast
  qed
  have unflagged: "\<not> first s' n" if "n \<in> set (onL_of t s')" for n
  proof -
    from publish_facts [OF w assms(2)] obtain s2 where
      s': "s' = finish t (onceL_of t s) s2" and w2: "wf (onceL_of t s) s2"
      by metis
    from that have "n \<in> set (onL_of t s2)" "\<not> first s2 n" by (simp_all add: s')
    moreover from this w2 have "n \<notin> set (onceL_of t s)"
      unfolding wf_def lists_def by auto
    ultimately show ?thesis by (simp add: s' first_def)
  qed
  have next_time: "(spares t n s' \<longrightarrow> n \<in> at ` set (calls_of s' s'')) \<and>
       (n \<in> set (onL_of t s'') \<longrightarrow> n \<in> at ` set (calls_of s' s''))"
    if n: "n \<in> set (onL_of t s')" and p: "publish t ev' s' = Some s''" for n ev' s''
  proof (intro conjI impI)
    assume "spares t n s'"
    then show "n \<in> at ` set (calls_of s' s'')"
      using publish_spared [OF w' p, of n] n unflagged [OF n] by (simp add: lists_def)
  next
    assume still: "n \<in> set (onL_of t s'')"
    from publish_facts [OF w' p] obtain s3 cs where
      s'': "s'' = finish t (onceL_of t s') s3"
      and tr: "trace s'' = trace s' @ cs"
      and fired: "\<forall>n \<in> set (onL_of t s') \<union> set (onceL_of t s'). \<not> first s3 n \<longrightarrow> n \<in> at ` set cs"
      by metis
    from still have "\<not> first s3 n" by (simp add: s'')
    with fired n tr show "n \<in> at ` set (calls_of s' s'')" by simp
  qed
  from live old made unflagged next_time show ?thesis by (simp; blast)
qed

subsection \<open>The lists are in the order of registration\<close>

lemma wf_lists_below: "wf C s \<Longrightarrow> n \<in> set (lists t s) \<Longrightarrow> n < fresh s"
  using wf_lists_dom [of C s n t] wf_dom_fresh [of C s n] by simp

lemma ordered_trace [simp]: "ordered (s\<lparr>trace := tr\<rparr>) = ordered s"
  by (simp add: ordered_def)

lemma on_ordered:
  assumes "wf C s" "ordered s"
  shows "ordered (snd (on t f s))"
proof -
  have "\<forall>n \<in> set (onL_of t s). n < fresh s"
    using wf_lists_below [OF assms(1), of _ t] by (simp add: lists_def)
  with assms(2) show ?thesis
    by (auto simp: ordered_def onL_of_on)
qed

lemma once_ordered:
  assumes "wf C s" "ordered s"
  shows "ordered (snd (once t f s))"
proof -
  have "\<forall>n \<in> set (onceL_of t s). n < fresh s"
    using wf_lists_below [OF assms(1), of _ t] by (simp add: lists_def)
  with assms(2) show ?thesis
    by (auto simp: ordered_def onceL_of_once sorted_wrt_append)
qed

lemma step_ordered:
  assumes "step a ev s = Some (ev', s')" "wf C s" "ordered s"
  shows "ordered s'"
proof (cases a)
  case (On t f)
  with assms show ?thesis using on_ordered [of C s t f] by auto
next
  case (Once t f)
  with assms show ?thesis using once_ordered [of C s t f] by auto
next
  case (Erase c)
  with assms(1) obtain s1 where "erase c s = Some s1" "s' = s1" by auto
  with assms(3) show ?thesis using erase_fields(4,5) [of c s s'] by (simp add: ordered_def)
next
  case (Clear t)
  with assms show ?thesis by (auto simp: ordered_def)
next
  case ClearAll
  with assms show ?thesis by (auto simp: ordered_def)
next
  case (Mutate g)
  with assms show ?thesis by auto
qed

lemma run_ordered:
  "run as ev s = Some (ev', s') \<Longrightarrow> wf C s \<Longrightarrow> ordered s \<Longrightarrow> ordered s'"
proof (induction as arbitrary: ev s)
  case Nil
  then show ?case by simp
next
  case (Cons a as)
  from Cons.prems(1) obtain ev1 s1 where
    a: "step a ev s = Some (ev1, s1)" and r: "run as ev1 s1 = Some (ev', s')"
    by (auto split: option.splits)
  from step_grows [OF a Cons.prems(2)] have "wf C s1" by simp
  moreover have "ordered s1" by (rule step_ordered [OF a Cons.prems(2,3)])
  ultimately show ?case using Cons.IH [OF r] by simp
qed

lemma func_ordered:
  assumes "func n ev s = Some (ev', s')" "wf C s" "ordered s"
  shows "ordered s'"
  using assms(1)
proof (cases rule: func_cases)
  case (skipped f)
  with assms(3) show ?thesis by simp
next
  case (called f)
  then have "run (body f) ev (s\<lparr>trace := trace s @ [Call n f ev]\<rparr>) = Some (ev', s')"
    by (simp add: invoke_def)
  from run_ordered [OF this, of C] assms(2,3) show ?thesis by simp
qed

lemma dispatch_ordered:
  "dispatch ns ev s = Some (ev', s') \<Longrightarrow> wf C s \<Longrightarrow> ordered s \<Longrightarrow> ordered s'"
proof (induction ns arbitrary: ev s)
  case Nil
  then show ?case by simp
next
  case (Cons n ns)
  from Cons.prems(1) obtain ev1 s1 where
    f: "func n ev s = Some (ev1, s1)" and d: "dispatch ns ev1 s1 = Some (ev', s')"
    by (auto split: option.splits)
  from func_grows [OF f Cons.prems(2)] have "wf C s1" by simp
  moreover have "ordered s1" by (rule func_ordered [OF f Cons.prems(2,3)])
  ultimately show ?case using Cons.IH [OF d] by simp
qed

lemma start_ordered: "ordered s \<Longrightarrow> ordered (start t s)"
  by (simp add: ordered_def)

lemma finish_ordered: "ordered s \<Longrightarrow> ordered (finish t C s)"
  by (simp add: ordered_def sorted_wrt_filter)

lemma publish_ordered:
  assumes "publish t ev s = Some s'" "wf [] s" "ordered s"
  shows "ordered s'"
proof -
  from publish_facts [OF assms(2,1)] obtain ev2 s2 where
    d: "dispatch (rev (onL_of t s) @ rev (onceL_of t s)) ev (start t s) = Some (ev2, s2)"
    and s': "s' = finish t (onceL_of t s) s2"
    by metis
  from dispatch_ordered [OF d start_wf [OF assms(2)] start_ordered [OF assms(3)]]
  show ?thesis unfolding s' by (rule finish_ordered)
qed

lemma exec_ordered:
  assumes "exec x s = Some s'" "wf [] s" "ordered s"
  shows "ordered s'"
proof (cases "\<exists>t ev. x = OpPublish t ev")
  case True
  with assms show ?thesis using publish_ordered by auto
next
  case False
  then have "\<forall>t ev. x \<noteq> OpPublish t ev" by simp
  from exec_step [OF assms(1) this] obtain a where "step a (undefined :: 'a) s = Some (undefined, s')"
    by blast
  from step_ordered [OF this assms(2,3)] show ?thesis .
qed

lemma Emitter_ordered: "ordered Emitter"
  by (simp add: ordered_def onL_of_def onceL_of_def slot_def Emitter_def)

lemma execs_ordered: "execs xs s = Some s' \<Longrightarrow> wf [] s \<Longrightarrow> ordered s \<Longrightarrow> ordered s'"
proof (induction xs arbitrary: s)
  case Nil
  then show ?case by simp
next
  case (Cons x xs)
  from Cons.prems(1) obtain s1 where x: "exec x s = Some s1" and r: "execs xs s1 = Some s'"
    by (auto split: option.splits)
  from exec_wf [OF x Cons.prems(2)] exec_ordered [OF x Cons.prems(2,3)] Cons.IH [OF r]
  show ?case by simp
qed

lemma reachable_ordered: "execs xs Emitter = Some s \<Longrightarrow> ordered s"
  by (rule execs_ordered [OF _ Emitter_wf Emitter_ordered])

subsection \<open>The calls that the called listeners make\<close>

lemma first_trace [simp]: "first (s\<lparr>trace := tr\<rparr>) n = first s n"
  by (simp add: first_def)

lemma first_node: "nodes s n = Some (b, g) \<Longrightarrow> first s n = b"
  by (simp add: first_def)

lemma grows_onL: "grows s s' \<Longrightarrow> n \<in> set (onL_of t s) \<Longrightarrow> n \<in> set (onL_of t s')"
proof -
  assume g: "grows s s'" and n: "n \<in> set (onL_of t s)"
  from g obtain p where "onL_of t s' = p @ onL_of t s" unfolding grows_def by blast
  with n show ?thesis by simp
qed

lemma node_of_trace [simp]: "node_of (s\<lparr>trace := tr\<rparr>) as k = node_of s as k"
  by (simp add: node_of_def)

lemma step_fresh:
  assumes "step a ev s = Some (ev', s')"
  shows "fresh s' = fresh s + (if registering a then 1 else 0)"
proof (cases a)
  case (Erase c)
  with assms show ?thesis using erase_fields(2) [of c s s'] by auto
qed (use assms in auto)

lemma run_fresh:
  "run as ev s = Some (ev', s') \<Longrightarrow> fresh s' = fresh s + length (filter registering as)"
proof (induction as arbitrary: ev s)
  case Nil
  then show ?case by simp
next
  case (Cons a as)
  from Cons.prems obtain ev1 s1 where
    a: "step a ev s = Some (ev1, s1)" and r: "run as ev1 s1 = Some (ev', s')"
    by (auto split: option.splits)
  from step_fresh [OF a] Cons.IH [OF r] show ?case by simp
qed

text \<open>The flag of a node of the lists of type \<open>t\<close> after a body has run.\<close>

lemma run_flag:
  assumes "run as ev s = Some (ev', s')" "wf C s" "n \<in> set (lists t s)"
  shows "first s' n \<longleftrightarrow> first s n \<or> list_ex (kills t n) as"
proof (cases "list_ex (kills t n) as")
  case True
  then obtain a where "a \<in> set as" "kills t n a" by (auto simp: list_ex_iff)
  from run_kills [OF assms(1,2) this assms(3)] True show ?thesis by simp
next
  case False
  then have "\<forall>a \<in> set as. \<not> kills t n a" by (simp add: list_ex_iff)
  have "n \<in> set (lists t s) \<union> set C" using assms(3) by simp
  from run_spares [OF assms(1,2) this \<open>\<forall>a \<in> set as. \<not> kills t n a\<close>] False show ?thesis by simp
qed

lemma node_of_Suc:
  "step a ev s = Some (ev', s') \<Longrightarrow> node_of s (a # as) (Suc k) = node_of s' as k"
  using step_fresh [of a ev s ev' s'] by (simp add: node_of_def)

text \<open>The node that the \<open>k\<close>-th call of a body makes, when that call is an \<^verbatim>\<open>on\<close>:
  it is in \<open>onL\<close> when the body returns, with its listener, and its flag is set
  exactly when a later call of the body sets it.\<close>

lemma run_on_node:
  "run as ev s = Some (ev', s') \<Longrightarrow> wf C s \<Longrightarrow> k < length as \<Longrightarrow> as ! k = On t g \<Longrightarrow>
     node_of s as k \<in> set (onL_of t s') \<and>
     nodes s' (node_of s as k) = Some (list_ex (kills t (node_of s as k)) (drop (Suc k) as), g)"
proof (induction as arbitrary: ev s k)
  case Nil
  then show ?case by simp
next
  case (Cons a as)
  from Cons.prems(1) obtain ev1 s1 where
    a: "step a ev s = Some (ev1, s1)" and r: "run as ev1 s1 = Some (ev', s')"
    by (auto split: option.splits)
  from step_grows [OF a Cons.prems(2)] have w1: "wf C s1" by simp
  show ?case
  proof (cases k)
    case 0
    with Cons.prems(4) have [simp]: "a = On t g" by simp
    let ?n = "fresh s"
    have n: "node_of s (a # as) k = ?n" using 0 by (simp add: node_of_def)
    from a have s1: "s1 = snd (on t g s)" by simp
    have in1: "?n \<in> set (onL_of t s1)" and nd1: "nodes s1 ?n = Some (False, g)"
      by (simp_all add: s1 onL_of_on)
    from run_grows [OF r w1] have g: "grows s1 s'" by simp
    from grows_onL [OF g in1] have in': "?n \<in> set (onL_of t s')" .
    from grows_node [OF g nd1] obtain b' where nd': "nodes s' ?n = Some (b', g)" by blast
    have "?n \<in> set (lists t s1)" using in1 by (simp add: lists_def)
    from run_flag [OF r w1 this] first_node [OF nd1] first_node [OF nd']
    have "b' = list_ex (kills t ?n) as" by simp
    with in' nd' show ?thesis unfolding n using 0 by simp
  next
    case (Suc k')
    with Cons.prems(3,4) have "k' < length as" "as ! k' = On t g" by simp_all
    from Cons.IH [OF r w1 this] show ?thesis
      unfolding Suc node_of_Suc [OF a] by simp
  qed
qed

lemma acts_Nil [simp]: "acts [] = []"
  by (simp add: acts_def)

lemma acts_Cons [simp]: "acts (c # cs) = body (callee c) @ acts cs"
  by (simp add: acts_def)

lemma acts_append [simp]: "acts (cs @ ds) = acts cs @ acts ds"
  by (simp add: acts_def)

text \<open>One visit and the visits after it.\<close>

lemma dispatch_Cons_cases:
  assumes "dispatch (m # ms) ev s = Some (ev', s')" "wf C s"
  obtains (skipped) "dispatch ms ev s = Some (ev', s')" "first s m"
  | (called) f ev1 s1 where "nodes s m = Some (False, f)"
      "run (body f) ev (s\<lparr>trace := trace s @ [Call m f ev]\<rparr>) = Some (ev1, s1)"
      "dispatch ms ev1 s1 = Some (ev', s')" "wf C s1"
      "calls_of s s' = Call m f ev # calls_of s1 s'"
proof -
  from assms(1) obtain ev1 s1 where
    f: "func m ev s = Some (ev1, s1)" and d: "dispatch ms ev1 s1 = Some (ev', s')"
    by (auto split: option.splits)
  from f show ?thesis
  proof (cases rule: func_cases)
    case (skipped f)
    with d have "dispatch ms ev s = Some (ev', s')" "first s m" by (simp_all add: first_def)
    then show ?thesis by (rule that(1))
  next
    case (called f)
    from func_grows [OF f assms(2)] have w1: "wf C s1" by simp
    from invoke_grows [OF called(2) assms(2)] have t1: "trace s1 = trace s @ [Call m f ev]" by simp
    from dispatch_trace [OF d w1] obtain cs where t': "trace s' = trace s1 @ cs" by blast
    have c: "calls_of s s' = Call m f ev # calls_of s1 s'"
      using t1 t' by (simp add: calls_of_def)
    from called(2) have "run (body f) ev (s\<lparr>trace := trace s @ [Call m f ev]\<rparr>) = Some (ev1, s1)"
      by (simp add: invoke_def)
    from called(1) this d w1 c show ?thesis by (rule that(2))
  qed
qed

text \<open>The flag of a node of the lists of type \<open>t\<close> after a dispatch: it is set when
  it was set before or a call in the body of a called listener sets it.\<close>

lemma dispatch_flag:
  "dispatch ms ev s = Some (ev', s') \<Longrightarrow> wf C s \<Longrightarrow> n \<in> set (lists t s) \<Longrightarrow>
     first s' n \<longleftrightarrow> first s n \<or> list_ex (kills t n) (acts (calls_of s s'))"
proof (induction ms arbitrary: ev s)
  case Nil
  then show ?case by (simp add: calls_of_def)
next
  case (Cons m ms)
  from Cons.prems(1,2) show ?case
  proof (cases rule: dispatch_Cons_cases)
    case skipped
    from Cons.IH [OF skipped(1) Cons.prems(2,3)] show ?thesis .
  next
    case (called f ev1 s1)
    let ?s0 = "s\<lparr>trace := trace s @ [Call m f ev]\<rparr>"
    have w0: "wf C ?s0" using Cons.prems(2) by simp
    have n0: "n \<in> set (lists t ?s0)" using Cons.prems(3) by simp
    from run_flag [OF called(2) w0 n0]
    have f1: "first s1 n \<longleftrightarrow> first s n \<or> list_ex (kills t n) (body f)" by simp
    from run_grows [OF called(2) w0] have "grows ?s0 s1" by simp
    from grows_lists [OF this n0] have n1: "n \<in> set (lists t s1)" .
    from Cons.IH [OF called(3,4) n1] f1 show ?thesis
      unfolding called(5) by auto
  qed
qed

lemma dispatch_fresh:
  "dispatch ms ev s = Some (ev', s') \<Longrightarrow> wf C s \<Longrightarrow>
     fresh s' = fresh s + length (filter registering (acts (calls_of s s')))"
proof (induction ms arbitrary: ev s)
  case Nil
  then show ?case by (simp add: calls_of_def)
next
  case (Cons m ms)
  from Cons.prems(1,2) show ?case
  proof (cases rule: dispatch_Cons_cases)
    case skipped
    from Cons.IH [OF skipped(1) Cons.prems(2)] show ?thesis .
  next
    case (called f ev1 s1)
    from run_fresh [OF called(2)] Cons.IH [OF called(3,4)] show ?thesis
      unfolding called(5) by simp
  qed
qed

text \<open>The node that the \<open>k\<close>-th call made during a dispatch makes, when that call
  is an \<^verbatim>\<open>on\<close>.\<close>

lemma dispatch_on_node:
  "dispatch ms ev s = Some (ev', s') \<Longrightarrow> wf C s \<Longrightarrow>
     k < length (acts (calls_of s s')) \<Longrightarrow> acts (calls_of s s') ! k = On t g \<Longrightarrow>
     node_of s (acts (calls_of s s')) k \<in> set (onL_of t s') \<and>
     nodes s' (node_of s (acts (calls_of s s')) k) =
       Some (list_ex (kills t (node_of s (acts (calls_of s s')) k))
               (drop (Suc k) (acts (calls_of s s'))), g)"
proof (induction ms arbitrary: ev s k)
  case Nil
  then show ?case by (simp add: calls_of_def)
next
  case (Cons m ms)
  from Cons.prems(1,2) show ?case
  proof (cases rule: dispatch_Cons_cases)
    case skipped
    from Cons.IH [OF skipped(1) Cons.prems(2,3,4)] show ?thesis .
  next
    case (called f ev1 s1)
    let ?s0 = "s\<lparr>trace := trace s @ [Call m f ev]\<rparr>"
    let ?as = "body f" and ?bs = "acts (calls_of s1 s')"
    have w0: "wf C ?s0" using Cons.prems(2) by simp
    have all: "acts (calls_of s s') = ?as @ ?bs" unfolding called(5) by simp
    show ?thesis
    proof (cases "k < length ?as")
      case True
      let ?n = "node_of s ?as k"
      have n: "node_of s (?as @ ?bs) k = ?n" using True by (simp add: node_of_def)
      from Cons.prems(4) True have "?as ! k = On t g" by (simp add: all nth_append)
      from run_on_node [OF called(2) w0 True this]
      have in1: "?n \<in> set (onL_of t s1)"
        and nd1: "nodes s1 ?n = Some (list_ex (kills t ?n) (drop (Suc k) ?as), g)"
        by simp_all
      from dispatch_grows [OF called(3,4)] have g: "grows s1 s'" by simp
      from grows_onL [OF g in1] have in': "?n \<in> set (onL_of t s')" .
      from grows_node [OF g nd1] obtain b' where nd': "nodes s' ?n = Some (b', g)" by blast
      have "?n \<in> set (lists t s1)" using in1 by (simp add: lists_def)
      from dispatch_flag [OF called(3,4) this] first_node [OF nd1] first_node [OF nd']
      have "b' = (list_ex (kills t ?n) (drop (Suc k) ?as) \<or> list_ex (kills t ?n) ?bs)" by simp
      also have "\<dots> = list_ex (kills t ?n) (drop (Suc k) (?as @ ?bs))"
        using True by (auto simp: list_ex_iff)
      finally show ?thesis using in' nd' unfolding all n by simp
    next
      case False
      define k' where "k' = k - length ?as"
      have k: "k = length ?as + k'" using False by (simp add: k'_def)
      have 1: "k' < length ?bs" using Cons.prems(3) by (simp add: all k)
      have 2: "?bs ! k' = On t g" using Cons.prems(4) by (simp add: all k nth_append)
      have n: "node_of s (?as @ ?bs) k = node_of s1 ?bs k'"
        using run_fresh [OF called(2)] by (simp add: node_of_def k)
      have d: "drop (Suc k) (?as @ ?bs) = drop (Suc k') ?bs" by (simp add: k)
      from Cons.IH [OF called(3,4) 1 2] show ?thesis
        unfolding all n d .
    qed
  qed
qed

subsection \<open>What a publish leaves in the list of persistent listeners\<close>

lemma filter_take_less:
  assumes "k < length xs" "P (xs ! k)"
  shows "length (filter P (take k xs)) < length (filter P xs)"
proof -
  have "xs = take k xs @ xs ! k # drop (Suc k) xs"
    using assms(1) by (rule id_take_nth_drop)
  then have "filter P xs = filter P (take k xs) @ filter P (xs ! k # drop (Suc k) xs)"
    by (metis filter_append)
  with assms(2) show ?thesis by simp
qed

text \<open>The calls of a publish are the calls of its dispatch.\<close>

lemma publish_as_dispatch:
  assumes "wf [] s" "publish t ev s = Some s'"
  obtains ev2 s2 where
    "dispatch (rev (onL_of t s) @ rev (onceL_of t s)) ev (start t s) = Some (ev2, s2)"
    "s' = finish t (onceL_of t s) s2" "wf (onceL_of t s) s2" "grows (start t s) s2"
    "calls_of (start t s) s2 = calls_of s s'"
proof -
  from publish_facts [OF assms] obtain ev2 s2 cs where
    d: "dispatch (rev (onL_of t s) @ rev (onceL_of t s)) ev (start t s) = Some (ev2, s2)"
    and s': "s' = finish t (onceL_of t s) s2"
    and g: "grows (start t s) s2" and w2: "wf (onceL_of t s) s2"
    and tr: "trace s' = trace s @ cs" "trace s2 = trace s @ cs"
    by metis
  have "calls_of (start t s) s2 = calls_of s s'"
    using tr by (simp add: calls_of_def)
  with d s' w2 g show ?thesis by (rule that)
qed

text \<open>What a publish leaves of \<open>onL\<close>: in front the nodes made during the publish
  that are left, then the nodes it had before whose flag was not set and that
  no call of a called listener flagged, in the order they had.\<close>

lemma publish_survivors:
  assumes "wf [] s" "publish t ev s = Some s'"
  shows "\<exists>p. onL_of t s' =
        p @ filter (\<lambda>n. \<not> first s n \<and> \<not> list_ex (kills t n) (acts (calls_of s s'))) (onL_of t s) \<and>
      (\<forall>n \<in> set p. fresh s \<le> n)"
    and "\<forall>n \<in> set (onL_of t s). n \<in> set (onL_of t s') \<longrightarrow> nodes s' n = nodes s n"
proof -
  from assms obtain ev2 s2 where
    d: "dispatch (rev (onL_of t s) @ rev (onceL_of t s)) ev (start t s) = Some (ev2, s2)"
    and s': "s' = finish t (onceL_of t s) s2" and w2: "wf (onceL_of t s) s2"
    and g: "grows (start t s) s2" and c: "calls_of (start t s) s2 = calls_of s s'"
    by (rule publish_as_dispatch)
  have w0: "wf (onceL_of t s) (start t s)" by (rule start_wf [OF assms(1)])
  have flag: "first s2 n \<longleftrightarrow> first s n \<or> list_ex (kills t n) (acts (calls_of s s'))"
    if "n \<in> set (onL_of t s)" for n
  proof -
    have "n \<in> set (lists t (start t s))" using that by (simp add: lists_def)
    from dispatch_flag [OF d w0 this] show ?thesis
      unfolding c by (simp add: first_def)
  qed
  from g obtain p where p: "onL_of t s2 = p @ onL_of t (start t s)"
    "\<forall>n \<in> set p. fresh (start t s) \<le> n"
    unfolding grows_def by blast
  have "filter (\<lambda>n. \<not> first s2 n) (onL_of t s) =
      filter (\<lambda>n. \<not> first s n \<and> \<not> list_ex (kills t n) (acts (calls_of s s'))) (onL_of t s)"
    by (rule filter_cong [OF refl]) (simp add: flag)
  then have "onL_of t s' = filter (\<lambda>n. \<not> first s2 n) p @
      filter (\<lambda>n. \<not> first s n \<and> \<not> list_ex (kills t n) (acts (calls_of s s'))) (onL_of t s)"
    using p(1) by (simp add: s')
  moreover have "\<forall>n \<in> set (filter (\<lambda>n. \<not> first s2 n) p). fresh s \<le> n"
    using p(2) by simp
  ultimately show "\<exists>p. onL_of t s' =
        p @ filter (\<lambda>n. \<not> first s n \<and> \<not> list_ex (kills t n) (acts (calls_of s s'))) (onL_of t s) \<and>
      (\<forall>n \<in> set p. fresh s \<le> n)"
    by blast
  show "\<forall>n \<in> set (onL_of t s). n \<in> set (onL_of t s') \<longrightarrow> nodes s' n = nodes s n"
  proof (intro ballI impI)
    fix n assume n: "n \<in> set (onL_of t s)" "n \<in> set (onL_of t s')"
    from n(2) have nf: "\<not> first s2 n" and n2: "n \<in> set (onL_of t s2)" by (simp_all add: s')
    from n(1) have "n \<in> set (lists t s) \<union> set []" by (simp add: lists_def)
    from wf_lists_dom [OF assms(1) this] obtain b f where nd: "nodes s n = Some (b, f)" by auto
    then have "nodes (start t s) n = Some (b, f)" by simp
    from grows_node [OF g this] obtain b' where nd2: "nodes s2 n = Some (b', f)" "b \<longrightarrow> b'"
      by blast
    from nf nd2 have "b' = False" "b = False" by (auto simp: first_def)
    moreover have "n \<notin> set (onceL_of t s)"
      using w2 n2 by (auto simp: wf_def lists_def)
    ultimately show "nodes s' n = nodes s n"
      using nd nd2 nf by (simp add: s')
  qed
qed

text \<open>The node that the \<open>k\<close>-th call made during a publish makes, when that call is
  an \<^verbatim>\<open>on\<close> for the published type.\<close>

lemma publish_on_node:
  assumes "wf [] s" "publish t ev s = Some s'"
    and "k < length (acts (calls_of s s'))" "acts (calls_of s s') ! k = On t g"
  shows "fresh s \<le> node_of s (acts (calls_of s s')) k"
    and "node_of s (acts (calls_of s s')) k < fresh s'"
    and "node_of s (acts (calls_of s s')) k \<notin> at ` set (calls_of s s')"
    and "list_ex (kills t (node_of s (acts (calls_of s s')) k)) (drop (Suc k) (acts (calls_of s s')))
      \<Longrightarrow> node_of s (acts (calls_of s s')) k \<notin> set (onL_of t s') \<and>
          nodes s' (node_of s (acts (calls_of s s')) k) = None"
    and "\<not> list_ex (kills t (node_of s (acts (calls_of s s')) k)) (drop (Suc k) (acts (calls_of s s')))
      \<Longrightarrow> node_of s (acts (calls_of s s')) k \<in> set (onL_of t s') \<and>
          nodes s' (node_of s (acts (calls_of s s')) k) = Some (False, g)"
proof -
  let ?as = "acts (calls_of s s')"
  let ?n = "node_of s ?as k"
  from assms(1,2) obtain ev2 s2 where
    d: "dispatch (rev (onL_of t s) @ rev (onceL_of t s)) ev (start t s) = Some (ev2, s2)"
    and s': "s' = finish t (onceL_of t s) s2" and w2: "wf (onceL_of t s) s2"
    and g: "grows (start t s) s2" and c: "calls_of (start t s) s2 = calls_of s s'"
    by (rule publish_as_dispatch)
  have w0: "wf (onceL_of t s) (start t s)" by (rule start_wf [OF assms(1)])
  have n0: "node_of (start t s) ?as k = ?n" by (simp add: node_of_def)
  show lo: "fresh s \<le> ?n" by (simp add: node_of_def)
  have "fresh s' = fresh s + length (filter registering ?as)"
    using dispatch_fresh [OF d w0] by (simp add: s' c)
  moreover have "registering (?as ! k)" using assms(4) by simp
  ultimately show "?n < fresh s'"
    using filter_take_less [OF assms(3), of registering] by (simp add: node_of_def)
  show "?n \<notin> at ` set (calls_of s s')"
    using publish_calls_old [OF assms(1,2)] lo by fastforce
  from dispatch_on_node [OF d w0, of k t g] assms(3,4)
  have in2: "?n \<in> set (onL_of t s2)"
    and nd2: "nodes s2 ?n = Some (list_ex (kills t ?n) (drop (Suc k) ?as), g)"
    unfolding c n0 by simp_all
  have notC: "?n \<notin> set (onceL_of t s)"
    using w2 in2 by (auto simp: wf_def lists_def)
  show "?n \<notin> set (onL_of t s') \<and> nodes s' ?n = None"
    if "list_ex (kills t ?n) (drop (Suc k) ?as)"
    using that in2 nd2 by (simp add: s' first_def)
  show "?n \<in> set (onL_of t s') \<and> nodes s' ?n = Some (False, g)"
    if "\<not> list_ex (kills t ?n) (drop (Suc k) ?as)"
    using that in2 nd2 notC by (simp add: s' first_def)
qed

text \<open>A call from outside that is not a publish of type \<open>t\<close> leaves every node of
  the \<open>onL\<close> of \<open>t\<close> in that list, with its listener.\<close>

lemma exec_keeps_on:
  assumes "exec x s = Some s1" "wf [] s" "\<not> publishes t x"
    and "n \<in> set (onL_of t s)" "nodes s n = Some (b, g)"
  shows "n \<in> set (onL_of t s1) \<and> (\<exists>b'. nodes s1 n = Some (b', g))"
proof (cases "\<exists>t' ev. x = OpPublish t' ev")
  case False
  then have "\<forall>t ev. x \<noteq> OpPublish t ev" by simp
  from exec_grows [OF assms(1) this assms(2)] have g: "grows s s1" by simp
  from grows_onL [OF g assms(4)] grows_node [OF g assms(5)] show ?thesis by blast
next
  case True
  then obtain t' ev where x: "x = OpPublish t' ev" by blast
  with assms(3) have ne: "t' \<noteq> t" by simp
  from assms(1) x have pub: "publish t' ev s = Some s1" by simp
  from assms(2) pub obtain ev2 s2 where
    s1: "s1 = finish t' (onceL_of t' s) s2" and w2: "wf (onceL_of t' s) s2"
    and g: "grows (start t' s) s2"
    by (rule publish_as_dispatch)
  have "n \<in> set (onL_of t (start t' s))" using assms(4) by simp
  from grows_onL [OF g this] have in2: "n \<in> set (onL_of t s2)" .
  have "nodes (start t' s) n = Some (b, g)" using assms(5) by simp
  from grows_node [OF g this] obtain b' where nd2: "nodes s2 n = Some (b', g)" by blast
  have l2: "n \<in> set (lists t s2) \<union> set (onceL_of t' s)" using in2 by (simp add: lists_def)
  have "n \<in> set (lists t s2)" using in2 by (simp add: lists_def)
  then have "n \<notin> set (onceL_of t' s)" using w2 by (auto simp: wf_def)
  moreover have "n \<notin> set (onL_of t' s2)"
    using wf_other_list [OF w2 l2, of t'] ne by (simp add: lists_def)
  ultimately show ?thesis using in2 nd2 ne by (auto simp: s1)
qed

lemma execs_keeps_on:
  "execs xs s = Some s1 \<Longrightarrow> wf [] s \<Longrightarrow> \<not> list_ex (publishes t) xs \<Longrightarrow>
     n \<in> set (onL_of t s) \<Longrightarrow> nodes s n = Some (b, g) \<Longrightarrow>
     n \<in> set (onL_of t s1) \<and> (\<exists>b'. nodes s1 n = Some (b', g))"
proof (induction xs arbitrary: s b)
  case Nil
  then show ?case by simp
next
  case (Cons x xs)
  from Cons.prems(1) obtain s0 where x: "exec x s = Some s0" and r: "execs xs s0 = Some s1"
    by (auto split: option.splits)
  from Cons.prems(3) have nx: "\<not> publishes t x" and nxs: "\<not> list_ex (publishes t) xs" by simp_all
  from exec_keeps_on [OF x Cons.prems(2) nx Cons.prems(4,5)] obtain b0 where
    0: "n \<in> set (onL_of t s0)" "nodes s0 n = Some (b0, g)" by blast
  from Cons.IH [OF r exec_wf [OF x Cons.prems(2)] nxs 0] show ?case .
qed

text \<open>A node of \<open>onL\<close> whose flag is not set and that no listener of the type
  flags is called by a publish, and the call is of its listener.\<close>

lemma publish_calls_listener:
  assumes "wf [] s" "publish t ev s = Some s'" "n \<in> set (onL_of t s)"
    "nodes s n = Some (False, g)" "spares t n s"
  shows "\<exists>c \<in> set (calls_of s s'). at c = n \<and> callee c = g"
proof -
  have "n \<in> set (lists t s)" "\<not> first s n" using assms(3,4) by (simp_all add: lists_def first_def)
  from publish_spared [OF assms(1,2) this assms(5)] obtain c where
    c: "c \<in> set (calls_of s s')" "at c = n" by auto
  from publish_facts [OF assms(1,2)] obtain cs where
    "trace s' = trace s @ cs" "\<forall>c \<in> set cs. nodes s (at c) = Some (False, callee c)"
    by metis
  then have "\<forall>c \<in> set (calls_of s s'). nodes s (at c) = Some (False, callee c)" by simp
  with c assms(4) have "callee c = g" by auto
  with c show ?thesis by blast
qed

lemma acts_mem: "c \<in> set cs \<Longrightarrow> a \<in> set (body (callee c)) \<Longrightarrow> a \<in> set (acts cs)"
  by (auto simp: acts_def)

text \<open>The registration made by the \<open>k\<close>-th call of a publish, when that call is an
  \<^verbatim>\<open>on\<close> for the published type.\<close>

lemma on_during_publish_registered:
  assumes "execs xs Emitter = Some s" "publish t ev s = Some s'"
    and "k < length (acts (calls_of s s'))" "acts (calls_of s s') ! k = On t g"
    and "n = node_of s (acts (calls_of s s')) k"
  shows "fresh s \<le> n \<and> n < fresh s' \<and> n \<notin> at ` set (calls_of s s') \<and>
    (if list_ex (kills t n) (drop (Suc k) (acts (calls_of s s')))
     then n \<notin> set (onL_of t s') \<and> nodes s' n = None
     else n \<in> set (onL_of t s') \<and> nodes s' n = Some (False, g) \<and>
       (\<forall>ys s1 ev' s''. execs ys s' = Some s1 \<and> \<not> list_ex (publishes t) ys \<and>
            publish t ev' s1 = Some s'' \<and> \<not> first s1 n \<and> spares t n s1 \<longrightarrow>
          (\<exists>c \<in> set (calls_of s1 s''). at c = n \<and> callee c = g)))"
proof -
  have w: "wf [] s" by (rule reachable_wf [OF assms(1)])
  have w': "wf [] s'" by (rule publish_wf [OF assms(2) w])
  note node = publish_on_node [OF w assms(2,3,4), folded assms(5)]
  show ?thesis
  proof (cases "list_ex (kills t n) (drop (Suc k) (acts (calls_of s s')))")
    case True
    with node(1,2,3) node(4) [OF True] show ?thesis by simp
  next
    case False
    from node(5) [OF False] have in': "n \<in> set (onL_of t s')" and nd': "nodes s' n = Some (False, g)"
      by simp_all
    have later: "\<exists>c \<in> set (calls_of s1 s''). at c = n \<and> callee c = g"
      if ys: "execs ys s' = Some s1" "\<not> list_ex (publishes t) ys"
        and pub: "publish t ev' s1 = Some s''" and live: "\<not> first s1 n" "spares t n s1"
      for ys s1 ev' s''
    proof -
      from execs_keeps_on [OF ys(1) w' ys(2) in' nd'] obtain b' where
        in1: "n \<in> set (onL_of t s1)" and nd1: "nodes s1 n = Some (b', g)" by blast
      from live(1) nd1 have "nodes s1 n = Some (False, g)" by (simp add: first_def)
      from publish_calls_listener [OF execs_wf [OF ys(1) w'] pub in1 this live(2)]
      show ?thesis .
    qed
    from node(1,2,3) in' nd' later False show ?thesis by simp blast
  qed
qed

subsection \<open>Event types for which nothing was registered\<close>

lemma tightI:
  assumes "\<And>n. n \<in> dom (nodes s) \<Longrightarrow> n \<in> set C \<or> (\<exists>t. n \<in> set (lists t s))"
  shows "tight C s"
  unfolding tight_def using assms by blast

lemma tightD:
  "tight C s \<Longrightarrow> n \<in> dom (nodes s) \<Longrightarrow> n \<in> set C \<or> (\<exists>t. n \<in> set (lists t s))"
  unfolding tight_def by blast

lemma tight_trace [simp]: "tight C (s\<lparr>trace := tr\<rparr>) = tight C s"
  by (simp add: tight_def)

lemma tight_marked:
  assumes "tight C s" "nodes s' = mark N (nodes s)" "\<And>t. lists t s' = lists t s"
  shows "tight C s'"
proof (rule tightI)
  fix n assume "n \<in> dom (nodes s')"
  then have "n \<in> dom (nodes s)" by (simp add: assms(2))
  from tightD [OF assms(1) this] show "n \<in> set C \<or> (\<exists>t. n \<in> set (lists t s'))"
    by (simp add: assms(3))
qed

lemma tight_added:
  assumes "tight C s" "nodes s' = (nodes s)(k \<mapsto> v)" "k \<in> set (lists t s')"
    "\<And>t' n. n \<in> set (lists t' s) \<Longrightarrow> n \<in> set (lists t' s')"
  shows "tight C s'"
proof (rule tightI)
  fix n assume "n \<in> dom (nodes s')"
  then have "n = k \<or> n \<in> dom (nodes s)" by (auto simp: assms(2) split: if_splits)
  then show "n \<in> set C \<or> (\<exists>t. n \<in> set (lists t s'))"
  proof
    assume "n = k"
    with assms(3) show ?thesis by blast
  next
    assume "n \<in> dom (nodes s)"
    from tightD [OF assms(1) this] assms(4) show ?thesis by blast
  qed
qed

lemma step_tight:
  assumes "step a ev s = Some (ev', s')" "tight C s"
  shows "tight C s'"
proof (cases a)
  case (On t f)
  with assms(1) have s': "s' = snd (on t f s)" by simp
  show ?thesis
    unfolding s' by (rule tight_added [OF assms(2), of _ "fresh s" _ t]) (auto simp: lists_on)
next
  case (Once t f)
  with assms(1) have s': "s' = snd (once t f s)" by simp
  show ?thesis
    unfolding s' by (rule tight_added [OF assms(2), of _ "fresh s" _ t]) (auto simp: set_lists_once)
next
  case (Erase c)
  with assms(1) have e: "erase c s = Some s'" by auto
  show ?thesis
    by (rule tight_marked [OF assms(2) erase_fields(1) [OF e]])
       (simp add: lists_def erase_fields(4,5) [OF e])
next
  case (Clear t)
  with assms(1) have s': "s' = clear t s" by simp
  show ?thesis
    unfolding s' by (rule tight_marked [OF assms(2) nodes_clear]) (simp add: lists_def)
next
  case ClearAll
  with assms(1) have s': "s' = clearAll s" by simp
  show ?thesis
    unfolding s' by (rule tight_marked [OF assms(2) nodes_clearAll]) (simp add: lists_def)
next
  case (Mutate g)
  with assms show ?thesis by auto
qed

lemma run_tight: "run as ev s = Some (ev', s') \<Longrightarrow> tight C s \<Longrightarrow> tight C s'"
proof (induction as arbitrary: ev s)
  case Nil
  then show ?case by simp
next
  case (Cons a as)
  from Cons.prems(1) obtain ev1 s1 where
    a: "step a ev s = Some (ev1, s1)" and r: "run as ev1 s1 = Some (ev', s')"
    by (auto split: option.splits)
  from Cons.IH [OF r step_tight [OF a Cons.prems(2)]] show ?case .
qed

lemma func_tight:
  assumes "func n ev s = Some (ev', s')" "tight C s"
  shows "tight C s'"
  using assms(1)
proof (cases rule: func_cases)
  case (skipped f)
  with assms(2) show ?thesis by simp
next
  case (called f)
  then have r: "run (body f) ev (s\<lparr>trace := trace s @ [Call n f ev]\<rparr>) = Some (ev', s')"
    by (simp add: invoke_def)
  from run_tight [OF r, of C] assms(2) show ?thesis by simp
qed

lemma dispatch_tight: "dispatch ns ev s = Some (ev', s') \<Longrightarrow> tight C s \<Longrightarrow> tight C s'"
proof (induction ns arbitrary: ev s)
  case Nil
  then show ?case by simp
next
  case (Cons n ns)
  from Cons.prems(1) obtain ev1 s1 where
    f: "func n ev s = Some (ev1, s1)" and d: "dispatch ns ev1 s1 = Some (ev', s')"
    by (auto split: option.splits)
  from Cons.IH [OF d func_tight [OF f Cons.prems(2)]] show ?case .
qed

lemma start_tight:
  assumes "tight [] s"
  shows "tight (onceL_of t s) (start t s)"
proof (rule tightI)
  fix n assume "n \<in> dom (nodes (start t s))"
  then have "n \<in> dom (nodes s)" by simp
  from tightD [OF assms this] obtain t' where t': "n \<in> set (lists t' s)" by auto
  show "n \<in> set (onceL_of t s) \<or> (\<exists>t'. n \<in> set (lists t' (start t s)))"
  proof (cases "n \<in> set (onceL_of t s)")
    case False
    with t' have "n \<in> set (lists t' (start t s))" by (auto simp: lists_def)
    then show ?thesis by blast
  qed simp
qed

lemma finish_tight:
  assumes "tight C s"
  shows "tight [] (finish t C s)"
proof (rule tightI)
  fix n assume n: "n \<in> dom (nodes (finish t C s))"
  then have 1: "n \<notin> set C" "\<not> (n \<in> set (onL_of t s) \<and> first s n)" "n \<in> dom (nodes s)"
    by (auto split: if_splits)
  from tightD [OF assms 1(3)] 1(1) obtain t' where t': "n \<in> set (lists t' s)" by auto
  with 1(2) have "n \<in> set (lists t' (finish t C s))" by (auto simp: lists_def)
  then show "n \<in> set [] \<or> (\<exists>t'. n \<in> set (lists t' (finish t C s)))" by blast
qed

lemma publish_tight:
  assumes "publish t ev s = Some s'" "wf [] s" "tight [] s"
  shows "tight [] s'"
proof -
  from assms(2,1) obtain ev2 s2 where
    d: "dispatch (rev (onL_of t s) @ rev (onceL_of t s)) ev (start t s) = Some (ev2, s2)"
    and s': "s' = finish t (onceL_of t s) s2"
    by (rule publish_as_dispatch)
  from dispatch_tight [OF d start_tight [OF assms(3)]] show ?thesis
    unfolding s' by (rule finish_tight)
qed

lemma exec_tight:
  assumes "exec x s = Some s'" "wf [] s" "tight [] s"
  shows "tight [] s'"
proof (cases "\<exists>t ev. x = OpPublish t ev")
  case True
  with assms show ?thesis using publish_tight by auto
next
  case False
  then have "\<forall>t ev. x \<noteq> OpPublish t ev" by simp
  from exec_step [OF assms(1) this] obtain a where "step a (undefined :: 'a) s = Some (undefined, s')"
    by blast
  from step_tight [OF this assms(3)] show ?thesis .
qed

lemma Emitter_tight: "tight [] Emitter"
  by (simp add: tight_def Emitter_def)

lemma execs_tight: "execs xs s = Some s' \<Longrightarrow> wf [] s \<Longrightarrow> tight [] s \<Longrightarrow> tight [] s'"
proof (induction xs arbitrary: s)
  case Nil
  then show ?case by simp
next
  case (Cons x xs)
  from Cons.prems(1) obtain s1 where x: "exec x s = Some s1" and r: "execs xs s1 = Some s'"
    by (auto split: option.splits)
  from Cons.IH [OF r exec_wf [OF x Cons.prems(2)] exec_tight [OF x Cons.prems(2,3)]]
  show ?case .
qed

lemma reachable_tight: "execs xs Emitter = Some s \<Longrightarrow> tight [] s"
  by (rule execs_tight [OF _ Emitter_wf Emitter_tight])

lemma slot_on: "slot t (snd (on t f s)) \<noteq> None"
  using slot_handler_same [of t s]
  by (auto simp: on_def Handler_on_def Let_def slot_upd_handler)

lemma slot_once: "slot t (snd (once t f s)) \<noteq> None"
  using slot_handler_same [of t s]
  by (auto simp: once_def Handler_once_def Let_def slot_upd_handler)

lemma slot_SomeD: "slot t s \<noteq> None \<Longrightarrow> t < length (handlers s) \<and> handlers s ! t \<noteq> None"
  by (auto simp: slot_def split: if_splits)

lemma on_not_empty: "\<not> empty_type t (snd (on t f s))"
  using slot_SomeD [OF slot_on [of t f s]]
  by (simp add: empty_type_def Handler_empty_def onL_of_on first_def)

lemma once_not_empty: "\<not> empty_type t (snd (once t f s))"
  using slot_SomeD [OF slot_once [of t f s]]
  by (simp add: empty_type_def Handler_empty_def onceL_of_once first_def)

text \<open>An event type for which no listener is stored.\<close>

lemma no_listeners:
  assumes "wf [] s" "onL_of t s = []" "onceL_of t s = []"
  shows "empty_type t s"
    and "\<exists>s'. publish t ev s = Some s' \<and> trace s' = trace s \<and> nodes s' = nodes s \<and>
       (\<forall>t'. onL_of t' s' = onL_of t' s \<and> onceL_of t' s' = onceL_of t' s) \<and>
       empty_type t s' \<and> empty_all s' = empty_all s \<and> slot t s' \<noteq> None"
    and "nodes (clear t s) = nodes s \<and> empty_type t (clear t s) \<and> slot t (clear t s) \<noteq> None"
    and "\<forall>s'. erase (Connection t n) s = Some s' \<longrightarrow> slot t s' \<noteq> None \<and> empty_type t s'"
proof -
  note nil = assms(2,3)
  have het: "Handler_empty t s"
    by (simp add: Handler_empty_def nil)
  then show e: "empty_type t s"
    by (simp add: empty_type_def)
  let ?s' = "finish t [] (start t s)"
  have p: "publish t ev s = Some ?s'"
    by (simp add: publish_dispatch [OF assms(1)] nil)
  have n': "nodes ?s' = nodes s"
    by (simp add: fun_eq_iff nil)
  have l': "onL_of t' ?s' = onL_of t' s \<and> onceL_of t' ?s' = onceL_of t' s" for t'
    using nil by auto
  have sl: "slot t' ?s' = None \<longleftrightarrow> t' \<noteq> t \<and> slot t' s = None" for t'
    by (auto simp: finish_def remove_if_def start_def slot_upd_handler slot_handler)
  have he: "Handler_empty t' ?s' = Handler_empty t' s" for t'
    by (rule Handler_empty_cong [OF conjunct1 [OF l'] conjunct2 [OF l'] n'])
  have e': "empty_type t ?s'"
    using he [of t] het by (simp add: empty_type_def)
  have ea: "empty_all ?s' = empty_all s"
    unfolding empty_all_iff using sl he het by metis
  show "\<exists>s'. publish t ev s = Some s' \<and> trace s' = trace s \<and> nodes s' = nodes s \<and>
       (\<forall>t'. onL_of t' s' = onL_of t' s \<and> onceL_of t' s' = onceL_of t' s) \<and>
       empty_type t s' \<and> empty_all s' = empty_all s \<and> slot t s' \<noteq> None"
    using p n' l' e' ea sl [of t] by (intro exI [of _ ?s']) simp
  have c: "nodes (clear t s) = nodes s"
    by (simp add: nodes_clear nil)
  have ec: "empty_type t (clear t s)"
    by (simp add: empty_type_def Handler_empty_def nil)
  have sc: "slot t (clear t s) \<noteq> None"
    using slot_handler_same [of t s] slot_handlers_cong [of "clear t s" "handler t s" t]
    by (simp add: clear_def)
  from c ec sc show "nodes (clear t s) = nodes s \<and> empty_type t (clear t s) \<and> slot t (clear t s) \<noteq> None"
    by simp
  show "\<forall>s'. erase (Connection t n) s = Some s' \<longrightarrow> slot t s' \<noteq> None \<and> empty_type t s'"
  proof (intro allI impI)
    fix s' assume er: "erase (Connection t n) s = Some s'"
    have "onL_of t s' = []" "onceL_of t s' = []"
      using erase_fields(4,5) [OF er] nil by simp_all
    then have "empty_type t s'" by (simp add: empty_type_def Handler_empty_def)
    moreover have "slot t s' \<noteq> None"
      using er slot_handler_same [of t s] by (auto simp: erase_Some)
    ultimately show "slot t s' \<noteq> None \<and> empty_type t s'" by simp
  qed
qed

lemma step_adds:
  assumes "step a ev s = Some (ev', s')" "\<not> adds_to t a"
  shows "lists t s' = lists t s"
proof (cases a)
  case (On t' f)
  with assms show ?thesis by (auto simp: lists_def onL_of_on)
next
  case (Once t' f)
  with assms show ?thesis by (auto simp: lists_def onceL_of_once)
next
  case (Erase c)
  with assms(1) have e: "erase c s = Some s'" by auto
  show ?thesis by (simp add: lists_def erase_fields(4,5) [OF e])
next
  case (Clear t')
  with assms show ?thesis by (auto simp: lists_def)
next
  case ClearAll
  with assms show ?thesis by (auto simp: lists_def)
next
  case (Mutate g)
  with assms show ?thesis by auto
qed

lemma run_adds:
  "run as ev s = Some (ev', s') \<Longrightarrow> \<not> list_ex (adds_to t) as \<Longrightarrow> lists t s' = lists t s"
proof (induction as arbitrary: ev s)
  case Nil
  then show ?case by simp
next
  case (Cons a as)
  from Cons.prems(1) obtain ev1 s1 where
    a: "step a ev s = Some (ev1, s1)" and r: "run as ev1 s1 = Some (ev', s')"
    by (auto split: option.splits)
  from Cons.prems(2) have na: "\<not> adds_to t a" and nas: "\<not> list_ex (adds_to t) as" by simp_all
  from Cons.IH [OF r nas] step_adds [OF a na] show ?case by simp
qed

lemma dispatch_adds:
  "dispatch ms ev s = Some (ev', s') \<Longrightarrow> wf C s \<Longrightarrow>
     \<not> list_ex (adds_to t) (acts (calls_of s s')) \<Longrightarrow> lists t s' = lists t s"
proof (induction ms arbitrary: ev s)
  case Nil
  then show ?case by simp
next
  case (Cons m ms)
  from Cons.prems(1,2) show ?case
  proof (cases rule: dispatch_Cons_cases)
    case skipped
    from Cons.IH [OF skipped(1) Cons.prems(2,3)] show ?thesis .
  next
    case (called f ev1 s1)
    from Cons.prems(3) have 1: "\<not> list_ex (adds_to t) (body f)"
      and 2: "\<not> list_ex (adds_to t) (acts (calls_of s1 s'))"
      unfolding called(5) by simp_all
    from run_adds [OF called(2) 1] Cons.IH [OF called(3,4) 2] show ?thesis by simp
  qed
qed

lemma publish_adds:
  assumes "wf [] s" "publish t' ev s = Some s'"
    "\<not> list_ex (adds_to t) (acts (calls_of s s'))" "lists t s = []"
  shows "lists t s' = []"
proof -
  from assms(1,2) obtain ev2 s2 where
    d: "dispatch (rev (onL_of t' s) @ rev (onceL_of t' s)) ev (start t' s) = Some (ev2, s2)"
    and s': "s' = finish t' (onceL_of t' s) s2"
    and c: "calls_of (start t' s) s2 = calls_of s s'"
    by (rule publish_as_dispatch)
  have "lists t (start t' s) = []" using assms(4) by (simp add: lists_def)
  with dispatch_adds [OF d start_wf [OF assms(1)], of t] assms(3) have "lists t s2 = []"
    unfolding c by simp
  then show ?thesis by (auto simp: s' lists_def)
qed

lemma exec_adds:
  assumes "exec x s = Some s'" "wf [] s" "\<not> op_adds_to t x"
    "\<not> list_ex (adds_to t) (acts (calls_of s s'))" "lists t s = []"
  shows "lists t s' = []"
proof (cases x)
  case (OpOn t' f)
  with assms(1,3) have "step (On t' f) (undefined :: 'a) s = Some (undefined, s')"
    "\<not> adds_to t (On t' f)"
    by simp_all
  from step_adds [OF this] assms(5) show ?thesis by simp
next
  case (OpOnce t' f)
  with assms(1,3) have "step (Once t' f) (undefined :: 'a) s = Some (undefined, s')"
    "\<not> adds_to t (Once t' f)"
    by simp_all
  from step_adds [OF this] assms(5) show ?thesis by simp
next
  case (OpErase c)
  with assms(1) have "step (Erase c) (undefined :: 'a) s = Some (undefined, s')" by simp
  from step_adds [OF this, of t] assms(5) show ?thesis by simp
next
  case (OpClear t')
  with assms(1) have "step (Clear t') (undefined :: 'a) s = Some (undefined, s')" by simp
  from step_adds [OF this, of t] assms(5) show ?thesis by simp
next
  case OpClearAll
  with assms(1) have "step ClearAll (undefined :: 'a) s = Some (undefined, s')" by simp
  from step_adds [OF this, of t] assms(5) show ?thesis by simp
next
  case (OpPublish t' ev)
  with assms(1) have "publish t' ev s = Some s'" by simp
  from publish_adds [OF assms(2) this assms(4,5)] show ?thesis .
qed

lemma execs_never:
  "execs xs s = Some s' \<Longrightarrow> wf [] s \<Longrightarrow> never_registered t xs s \<Longrightarrow> lists t s = [] \<Longrightarrow>
     lists t s' = []"
proof (induction xs arbitrary: s)
  case Nil
  then show ?case by simp
next
  case (Cons x xs)
  from Cons.prems(1) obtain s1 where x: "exec x s = Some s1" and r: "execs xs s1 = Some s'"
    by (auto split: option.splits)
  from Cons.prems(3) x have n: "\<not> op_adds_to t x" "\<not> list_ex (adds_to t) (acts (calls_of s s1))"
    "never_registered t xs s1"
    by simp_all
  from Cons.IH [OF r exec_wf [OF x Cons.prems(2)] n(3) exec_adds [OF x Cons.prems(2) n(1,2) Cons.prems(4)]]
  show ?case .
qed

lemma reachable_never:
  assumes "execs xs Emitter = Some s" "never_registered t xs Emitter"
  shows "onL_of t s = [] \<and> onceL_of t s = []"
proof -
  have "lists t (Emitter :: 'a emitter) = []"
    by (simp add: lists_def onL_of_def onceL_of_def slot_def Emitter_def)
  from execs_never [OF assms(1) Emitter_wf assms(2) this] show ?thesis
    by (simp add: lists_def)
qed

text \<open>A call from outside that is not a publish of type \<open>t\<close> only adds to the
  lists of \<open>t\<close>: to the front of \<open>onL\<close> and to the back of \<open>onceL\<close>.\<close>

lemma exec_extends:
  assumes "exec x s = Some s1" "wf [] s" "\<not> publishes t x"
  shows "(\<exists>p. onL_of t s1 = p @ onL_of t s \<and> (\<forall>n \<in> set p. fresh s \<le> n)) \<and>
    (\<exists>q. onceL_of t s1 = onceL_of t s @ q \<and> (\<forall>n \<in> set q. fresh s \<le> n))"
proof (cases "\<exists>t' ev. x = OpPublish t' ev")
  case False
  then have "\<forall>t ev. x \<noteq> OpPublish t ev" by simp
  from exec_grows [OF assms(1) this assms(2)] have "grows s s1" by simp
  then show ?thesis unfolding grows_def by blast
next
  case True
  then obtain t' ev where x: "x = OpPublish t' ev" by blast
  with assms(3) have ne: "t' \<noteq> t" by simp
  from assms(1) x have pub: "publish t' ev s = Some s1" by simp
  from assms(2) pub obtain ev2 s2 where
    s1: "s1 = finish t' (onceL_of t' s) s2" and g: "grows (start t' s) s2"
    by (rule publish_as_dispatch)
  from g have "\<exists>p. onL_of t s2 = p @ onL_of t (start t' s) \<and> (\<forall>n \<in> set p. fresh (start t' s) \<le> n)"
    "\<exists>q. onceL_of t s2 = onceL_of t (start t' s) @ q \<and> (\<forall>n \<in> set q. fresh (start t' s) \<le> n)"
    unfolding grows_def by blast+
  then show ?thesis using ne by (simp add: s1)
qed

lemma exec_fresh:
  assumes "exec x s = Some s1" "wf [] s"
  shows "fresh s \<le> fresh s1"
proof (cases "\<exists>t' ev. x = OpPublish t' ev")
  case False
  then have "\<forall>t ev. x \<noteq> OpPublish t ev" by simp
  from exec_grows [OF assms(1) this assms(2)] show ?thesis by (simp add: grows_fresh)
next
  case True
  then obtain t' ev where x: "x = OpPublish t' ev" by blast
  from assms(1) x have pub: "publish t' ev s = Some s1" by simp
  from assms(2) pub obtain ev2 s2 where
    s1: "s1 = finish t' (onceL_of t' s) s2" and g: "grows (start t' s) s2"
    by (rule publish_as_dispatch)
  from grows_fresh [OF g] show ?thesis by (simp add: s1)
qed

subsection \<open>What clearing does, also during a publish\<close>

text \<open>\<^verbatim>\<open>clear<E>()\<close> sets the flag of every node of the two lists of the handler
  and leaves the lists as they are; it is what erasing the connection of every
  node of the two lists does.  \<^verbatim>\<open>clearAll()\<close> sets the flag of every node of
  every list, so the overall \<^verbatim>\<open>empty()\<close> is true after it.  The local list \<open>C\<close>
  of a running publish is in none of these lists.\<close>

lemma clear_flags_lists:
  assumes "wf C s"
  shows "(\<forall>n \<in> set (onceL_of t s) \<union> set (onL_of t s). \<exists>f. nodes (clear t s) n = Some (True, f)) \<and>
    onceL_of t (clear t s) = onceL_of t s \<and> onL_of t (clear t s) = onL_of t s \<and>
    execs (map (\<lambda>n. OpErase (Connection t n)) (onceL_of t s @ onL_of t s)) (handler t s)
      = Some (clear t s) \<and>
    empty_type t (clear t s) \<and>
    (\<forall>t'. \<forall>n \<in> set (onceL_of t' s) \<union> set (onL_of t' s). \<exists>f. nodes (clearAll s) n = Some (True, f)) \<and>
    handlers (clearAll s) = handlers s \<and>
    empty_all (clearAll s) \<and>
    (\<forall>n \<in> set C. n \<notin> set (lists t s) \<and> nodes (clear t s) n = nodes s n)"
proof -
  note w = assms
  have dom: "set (onceL_of t' s) \<union> set (onL_of t' s) \<subseteq> dom (nodes s)" for t'
    using w by (auto simp: wf_def lists_def)
  have one: "\<exists>f. nodes (clear t s) n = Some (True, f)"
    if "n \<in> set (onceL_of t s) \<union> set (onL_of t s)" for n
  proof -
    from that dom [of t] obtain b f where "nodes s n = Some (b, f)" by fastforce
    with that have "nodes (clear t s) n = Some (True, f)"
      by (auto simp: nodes_clear mark_Some)
    then show ?thesis by blast
  qed
  have as_erases: "execs (map (\<lambda>n. OpErase (Connection t n)) (onceL_of t s @ onL_of t s)) (handler t s)
      = Some (clear t s)"
  proof -
    have "set (onceL_of t s @ onL_of t s) \<subseteq> dom (nodes (handler t s))"
      using dom [of t] by simp
    from erases_are_tombstones [OF slot_handler_same this]
    show ?thesis by (simp add: clear_def Handler_clear_def)
  qed
  have empty_t: "empty_type t (clear t s)"
  proof -
    have "list_all (first (clear t s)) (onceL_of t s)" "list_all (first (clear t s)) (onL_of t s)"
      using dom [of t] by (auto intro!: marked_all_first [OF nodes_clear])
    then show ?thesis by (simp add: empty_type_def Handler_empty_def)
  qed
  have every: "\<exists>f. nodes (clearAll s) n = Some (True, f)"
    if "n \<in> set (onceL_of t' s) \<union> set (onL_of t' s)" for t' n
  proof -
    from that dom [of t'] obtain b f where "nodes s n = Some (b, f)" by fastforce
    with that have "nodes (clearAll s) n = Some (True, f)"
      by (auto simp: nodes_clearAll mark_Some)
    then show ?thesis by blast
  qed
  have empty_a: "empty_all (clearAll s)"
  proof -
    have "Handler_empty t' (clearAll s)" for t'
    proof -
      have "list_all (first (clearAll s)) (onceL_of t' s)" "list_all (first (clearAll s)) (onL_of t' s)"
        using dom [of t'] by (auto intro!: marked_all_first [OF nodes_clearAll])
      then show ?thesis by (simp add: Handler_empty_def)
    qed
    then show ?thesis by (simp add: empty_all_def list_all_iff)
  qed
  have local: "\<forall>n \<in> set C. n \<notin> set (lists t s) \<and> nodes (clear t s) n = nodes s n"
  proof
    fix n assume "n \<in> set C"
    with w have n: "n \<notin> set (lists t s)" by (auto simp: wf_def)
    then have "n \<notin> set (onL_of t s) \<union> set (onceL_of t s)" by (simp add: lists_def)
    then have "nodes (clear t s) n = nodes s n" by (simp add: nodes_clear mark_def)
    with n show "n \<notin> set (lists t s) \<and> nodes (clear t s) n = nodes s n" by simp
  qed
  from one as_erases empty_t every empty_a local show ?thesis by simp
qed

section \<open>The properties of the specification\<close>

text \<open>
  C1.  Every registration takes the next node address, and the address counter
  never goes back, so of two listeners the one with the smaller address was
  registered first.  \<^verbatim>\<open>on\<close> puts the node at the front of \<open>onL\<close> and \<^verbatim>\<open>once\<close>
  puts it at the back of \<open>onceL\<close>, and a call from outside that is not a
  publish of the type only adds to the lists of the type: in every reachable
  state the reversed \<open>onL\<close> is in the order of registration, oldest first, and
  the reversed \<open>onceL\<close> is newest first.  A publish returns when
  every \<^verbatim>\<open>erase\<close> in the bodies of the listeners of the type is of a connection
  whose node exists.  The calls of a publish are calls of nodes of \<open>onL\<close>, in the
  reverse order of that list, followed by calls of nodes of \<open>onceL\<close>, in the
  reverse order of that list.  Every node of \<open>onL\<close> that is still in the list
  afterwards was called, and so was every unflagged node of either list whose
  flag no listener of the type sets; when that holds for all nodes, the calls
  are exactly the unflagged nodes of the reversed \<open>onL\<close> and then of the reversed
  \<open>onceL\<close>.  The nodes of \<open>onceL\<close> are destroyed, so no later publish calls them.
  The publish leaves in \<open>onL\<close>, behind the nodes made meanwhile, exactly the
  nodes whose flag was not set before and that no call of a called listener
  flagged, in the order they had and with their listeners.
\<close>

theorem publish_order:
  assumes "execs xs Emitter = Some s"
  shows "(\<forall>s0 :: 'e emitter.
       fst (on t f s0) = Connection t (fresh s0) \<and> fst (once t f s0) = Connection t (fresh s0) \<and>
       fresh (snd (on t f s0)) = Suc (fresh s0) \<and> fresh (snd (once t f s0)) = Suc (fresh s0) \<and>
       onL_of t (snd (on t f s0)) = fresh s0 # onL_of t s0 \<and>
       onceL_of t (snd (once t f s0)) = onceL_of t s0 @ [fresh s0] \<and>
       (\<forall>a e e' s1. step a e s0 = Some (e', s1) \<longrightarrow>
          fresh s1 = fresh s0 + (if registering a then 1 else 0))) \<and>
    ((\<forall>n \<in> set (lists t s). n < fresh s) \<and>
     sorted_wrt (<) (rev (onL_of t s)) \<and> sorted_wrt (>) (rev (onceL_of t s)) \<and>
     (\<forall>x s1. exec x s = Some s1 \<longrightarrow> fresh s \<le> fresh s1) \<and>
     (\<forall>x s1. exec x s = Some s1 \<and> \<not> publishes t x \<longrightarrow>
        (\<exists>p. onL_of t s1 = p @ onL_of t s \<and> (\<forall>n \<in> set p. fresh s \<le> n)) \<and>
        (\<exists>q. onceL_of t s1 = onceL_of t s @ q \<and> (\<forall>n \<in> set q. fresh s \<le> n)))) \<and>
    (sound t s \<longrightarrow> (\<exists>s'. publish t ev s = Some s')) \<and>
    (\<forall>s'. publish t ev s = Some s' \<longrightarrow>
      (\<exists>ps os. map at (calls_of s s') = ps @ os \<and>
         subseq ps (rev (onL_of t s)) \<and> subseq os (rev (onceL_of t s)) \<and>
         (\<forall>n \<in> set (onL_of t s). n \<in> set (onL_of t s') \<longrightarrow> n \<in> set ps) \<and>
         (\<forall>n \<in> set (onL_of t s). \<not> first s n \<and> spares t n s \<longrightarrow> n \<in> set ps) \<and>
         (\<forall>n \<in> set (onceL_of t s). \<not> first s n \<and> spares t n s \<longrightarrow> n \<in> set os)) \<and>
      ((\<forall>n \<in> set (lists t s). spares t n s) \<longrightarrow>
         map at (calls_of s s') =
           filter (\<lambda>n. \<not> first s n) (rev (onL_of t s)) @
           filter (\<lambda>n. \<not> first s n) (rev (onceL_of t s))) \<and>
      (\<forall>n \<in> set (onceL_of t s). nodes s' n = None \<and> (\<forall>t'. n \<notin> set (lists t' s'))) \<and>
      (\<exists>p. onL_of t s' =
           p @ filter (\<lambda>n. \<not> first s n \<and> \<not> list_ex (kills t n) (acts (calls_of s s')))
                 (onL_of t s) \<and>
         (\<forall>n \<in> set p. fresh s \<le> n)) \<and>
      (\<forall>n \<in> set (onL_of t s). n \<in> set (onL_of t s') \<longrightarrow> nodes s' n = nodes s n))"
    (is "?reg \<and> ?ord \<and> ?ret \<and> (\<forall>s'. _ \<longrightarrow> ?Q s')")
proof -
  have w: "wf [] s" by (rule reachable_wf [OF assms(1)])
  have reg: ?reg
  proof (rule allI)
    fix s0 :: "'e emitter"
    have "\<forall>a e e' s1. step a e s0 = Some (e', s1) \<longrightarrow>
        fresh s1 = fresh s0 + (if registering a then 1 else 0)"
      by (intro allI impI) (rule step_fresh)
    then show "fst (on t f s0) = Connection t (fresh s0) \<and> fst (once t f s0) = Connection t (fresh s0) \<and>
       fresh (snd (on t f s0)) = Suc (fresh s0) \<and> fresh (snd (once t f s0)) = Suc (fresh s0) \<and>
       onL_of t (snd (on t f s0)) = fresh s0 # onL_of t s0 \<and>
       onceL_of t (snd (once t f s0)) = onceL_of t s0 @ [fresh s0] \<and>
       (\<forall>a e e' s1. step a e s0 = Some (e', s1) \<longrightarrow>
          fresh s1 = fresh s0 + (if registering a then 1 else 0))"
      by (simp add: onL_of_on onceL_of_once)
  qed
  have ord: ?ord
  proof -
    from reachable_ordered [OF assms] have "sorted_wrt (>) (onL_of t s)" "sorted_wrt (<) (onceL_of t s)"
      by (simp_all add: ordered_def)
    then have "sorted_wrt (<) (rev (onL_of t s))" "sorted_wrt (>) (rev (onceL_of t s))"
      by (simp_all add: sorted_wrt_rev)
    moreover have "\<forall>n \<in> set (lists t s). n < fresh s"
      using wf_lists_below [OF w] by blast
    moreover have "\<forall>x s1. exec x s = Some s1 \<longrightarrow> fresh s \<le> fresh s1"
      using exec_fresh [OF _ w] by blast
    moreover have "\<forall>x s1. exec x s = Some s1 \<and> \<not> publishes t x \<longrightarrow>
        (\<exists>p. onL_of t s1 = p @ onL_of t s \<and> (\<forall>n \<in> set p. fresh s \<le> n)) \<and>
        (\<exists>q. onceL_of t s1 = onceL_of t s @ q \<and> (\<forall>n \<in> set q. fresh s \<le> n))"
      using exec_extends [OF _ w] by blast
    ultimately show ?thesis by (intro conjI)
  qed
  have ret: ?ret using publish_returns [OF w] by blast
  have rest: "?Q s'" if pub: "publish t ev s = Some s'" for s'
  proof -
    from publish_facts [OF w pub] obtain ev2 s2 cs where
      s': "s' = finish t (onceL_of t s) s2"
      and w2: "wf (onceL_of t s) s2"
      and tr: "trace s' = trace s @ cs"
      and sub: "subseq (map at cs) (rev (onL_of t s) @ rev (onceL_of t s))"
      and unflagged: "\<forall>c \<in> set cs. nodes s (at c) = Some (False, callee c)"
      and fired: "\<forall>n \<in> set (onL_of t s) \<union> set (onceL_of t s). \<not> first s2 n \<longrightarrow> n \<in> at ` set cs"
      by metis
    have c: "calls_of s s' = cs" using tr by simp
    from sub obtain ps os where
      split: "map at cs = ps @ os" "subseq ps (rev (onL_of t s))" "subseq os (rev (onceL_of t s))"
      by (rule subseq_appendE)
    have dis: "distinct (rev (onL_of t s) @ rev (onceL_of t s))"
      by (rule wf_visits_distinct [OF w])
    have ps_on: "set ps \<subseteq> set (onL_of t s)" and os_once: "set os \<subseteq> set (onceL_of t s)"
      using subseq_mem [OF split(2)] subseq_mem [OF split(3)] by auto
    have in_ps: "n \<in> set ps" if "n \<in> set (onL_of t s)" "n \<in> at ` set cs" for n
    proof -
      have "n \<notin> set os" using os_once that(1) dis by auto
      moreover have "n \<in> set (map at cs)" using that(2) by simp
      ultimately show ?thesis unfolding split(1) by simp
    qed
    have in_os: "n \<in> set os" if "n \<in> set (onceL_of t s)" "n \<in> at ` set cs" for n
    proof -
      have "n \<notin> set ps" using ps_on that(1) dis by auto
      moreover have "n \<in> set (map at cs)" using that(2) by simp
      ultimately show ?thesis unfolding split(1) by simp
    qed
    have spared: "n \<in> at ` set cs" if "n \<in> set (lists t s)" "\<not> first s n" "spares t n s" for n
      using publish_spared [OF w pub that] c by simp
    have survivors: "\<forall>n \<in> set (onL_of t s). n \<in> set (onL_of t s') \<longrightarrow> n \<in> set ps"
    proof (intro ballI impI)
      fix n assume n: "n \<in> set (onL_of t s)" "n \<in> set (onL_of t s')"
      then have "\<not> first s2 n" by (simp add: s')
      with fired n(1) have "n \<in> at ` set cs" by blast
      with n(1) show "n \<in> set ps" by (rule in_ps)
    qed
    have exact: "(\<forall>n \<in> set (lists t s). spares t n s) \<longrightarrow> map at (calls_of s s') =
        filter (\<lambda>n. \<not> first s n) (rev (onL_of t s)) @ filter (\<lambda>n. \<not> first s n) (rev (onceL_of t s))"
    proof
      assume all: "\<forall>n \<in> set (lists t s). spares t n s"
      have "set (map at cs) = {n \<in> set (rev (onL_of t s) @ rev (onceL_of t s)). \<not> first s n}"
      proof (intro set_eqI iffI)
        fix n assume "n \<in> set (map at cs)"
        then obtain c where "c \<in> set cs" "n = at c" by auto
        with unflagged have "nodes s n = Some (False, callee c)" by simp
        moreover have "n \<in> set (rev (onL_of t s) @ rev (onceL_of t s))"
          using subseq_mem [OF sub \<open>n \<in> set (map at cs)\<close>] by simp
        ultimately show "n \<in> {n \<in> set (rev (onL_of t s) @ rev (onceL_of t s)). \<not> first s n}"
          by (simp add: first_def)
      next
        fix n assume "n \<in> {n \<in> set (rev (onL_of t s) @ rev (onceL_of t s)). \<not> first s n}"
        then have "n \<in> set (lists t s)" "\<not> first s n" by (auto simp: lists_def)
        with spared all show "n \<in> set (map at cs)" by auto
      qed
      from subseq_is_filter [OF dis sub this] show "map at (calls_of s s') =
        filter (\<lambda>n. \<not> first s n) (rev (onL_of t s)) @ filter (\<lambda>n. \<not> first s n) (rev (onceL_of t s))"
        by (simp add: c)
    qed
    have gone: "\<forall>n \<in> set (onceL_of t s). nodes s' n = None \<and> (\<forall>t'. n \<notin> set (lists t' s'))"
      using finish_destroys [OF w2] unfolding s' by blast
    have calls: "\<exists>ps os. map at (calls_of s s') = ps @ os \<and>
         subseq ps (rev (onL_of t s)) \<and> subseq os (rev (onceL_of t s)) \<and>
         (\<forall>n \<in> set (onL_of t s). n \<in> set (onL_of t s') \<longrightarrow> n \<in> set ps) \<and>
         (\<forall>n \<in> set (onL_of t s). \<not> first s n \<and> spares t n s \<longrightarrow> n \<in> set ps) \<and>
         (\<forall>n \<in> set (onceL_of t s). \<not> first s n \<and> spares t n s \<longrightarrow> n \<in> set os)"
    proof (intro exI conjI)
      show "map at (calls_of s s') = ps @ os" using split(1) c by simp
      show "subseq ps (rev (onL_of t s))" "subseq os (rev (onceL_of t s))" by (rule split(2,3))+
      show "\<forall>n \<in> set (onL_of t s). n \<in> set (onL_of t s') \<longrightarrow> n \<in> set ps" by (rule survivors)
      show "\<forall>n \<in> set (onL_of t s). \<not> first s n \<and> spares t n s \<longrightarrow> n \<in> set ps"
        using in_ps spared by (auto simp: lists_def)
      show "\<forall>n \<in> set (onceL_of t s). \<not> first s n \<and> spares t n s \<longrightarrow> n \<in> set os"
        using in_os spared by (auto simp: lists_def)
    qed
    note left = publish_survivors [OF w pub]
    show ?thesis by (intro conjI; fact calls exact gone left)
  qed
  show ?thesis
    by (rule conjI [OF reg], rule conjI [OF ord], rule conjI [OF ret], rule allI, rule impI,
        erule rest)
qed

text \<open>The scenario of the specification: persistent listeners A, B, C, a
  publish, one-shot listeners D, E, and two more publishes.\<close>

theorem publish_order_witness:
  "(case execs [OpOn 0 (Listener ''A'' []), OpOn 0 (Listener ''B'' []), OpOn 0 (Listener ''C'' []),
                OpPublish 0 1, OpOnce 0 (Listener ''D'' []), OpOnce 0 (Listener ''E'' [])]
          (Emitter :: nat emitter) of
      None \<Rightarrow> False
    | Some s \<Rightarrow>
       (case publish 0 2 s of
          None \<Rightarrow> False
        | Some s' \<Rightarrow>
           (case publish 0 3 s' of
              None \<Rightarrow> False
            | Some s'' \<Rightarrow>
                map (name \<circ> callee) (trace s) = [''A'', ''B'', ''C''] \<and>
                onL_of 0 s = [2, 1, 0] \<and> onceL_of 0 s = [3, 4] \<and>
                map at (calls_of s s') = [0, 1, 2, 4, 3] \<and>
                map (name \<circ> callee) (calls_of s s') = [''A'', ''B'', ''C'', ''E'', ''D''] \<and>
                onL_of 0 s' = [2, 1, 0] \<and> onceL_of 0 s' = [] \<and>
                map (name \<circ> callee) (calls_of s' s'') = [''A'', ''B'', ''C''] \<and>
                sorted_wrt (<) (rev (onL_of 0 s)) \<and> sorted_wrt (>) (rev (onceL_of 0 s)) \<and>
                (\<exists>ps os. map at (calls_of s s') = ps @ os \<and>
                   subseq ps (rev (onL_of 0 s)) \<and> subseq os (rev (onceL_of 0 s))))))"
proof -
  let ?xs = "[OpOn 0 (Listener ''A'' []), OpOn 0 (Listener ''B'' []), OpOn 0 (Listener ''C'' []),
              OpPublish 0 1, OpOnce 0 (Listener ''D'' []), OpOnce 0 (Listener ''E'' [])] :: nat op list"
  let ?s = "the (execs ?xs Emitter)"
  let ?s' = "the (publish 0 2 ?s)"
  let ?s'' = "the (publish 0 3 ?s')"
  have "execs ?xs Emitter \<noteq> None" by code_simp
  then obtain s where s: "execs ?xs Emitter = Some s" by blast
  have "sound 0 ?s" by code_simp
  then have "sound 0 s" unfolding s option.sel .
  note order = publish_order [OF s, of 0 "Listener ''A'' []" 2]
  from order [THEN conjunct2, THEN conjunct2, THEN conjunct1] \<open>sound 0 s\<close>
  obtain s' where s': "publish 0 2 s = Some s'"
    by blast
  have "publish 0 3 ?s' \<noteq> None" by code_simp
  then obtain s'' where s'': "publish 0 3 s' = Some s''"
    unfolding s option.sel s' by blast
  have "map (name \<circ> callee) (trace ?s) = [''A'', ''B'', ''C'']"
    "onL_of 0 ?s = [2, 1, 0]" "onceL_of 0 ?s = [3, 4]"
    "map at (calls_of ?s ?s') = [0, 1, 2, 4, 3]"
    "map (name \<circ> callee) (calls_of ?s ?s') = [''A'', ''B'', ''C'', ''E'', ''D'']"
    "onL_of 0 ?s' = [2, 1, 0]" "onceL_of 0 ?s' = []"
    "map (name \<circ> callee) (calls_of ?s' ?s'') = [''A'', ''B'', ''C'']"
    by code_simp+
  then have v: "map (name \<circ> callee) (trace s) = [''A'', ''B'', ''C'']"
    "onL_of 0 s = [2, 1, 0]" "onceL_of 0 s = [3, 4]"
    "map at (calls_of s s') = [0, 1, 2, 4, 3]"
    "map (name \<circ> callee) (calls_of s s') = [''A'', ''B'', ''C'', ''E'', ''D'']"
    "onL_of 0 s' = [2, 1, 0]" "onceL_of 0 s' = []"
    "map (name \<circ> callee) (calls_of s' s'') = [''A'', ''B'', ''C'']"
    unfolding s option.sel s' s'' by blast+
  note o = order [THEN conjunct2, THEN conjunct1, THEN conjunct2, THEN conjunct1]
    order [THEN conjunct2, THEN conjunct1, THEN conjunct2, THEN conjunct2, THEN conjunct1]
  from order [THEN conjunct2, THEN conjunct2, THEN conjunct2, THEN spec, THEN mp, OF s',
      THEN conjunct1]
  have "\<exists>ps os. map at (calls_of s s') = ps @ os \<and>
       subseq ps (rev (onL_of 0 s)) \<and> subseq os (rev (onceL_of 0 s))"
    by blast
  with v o show ?thesis
    unfolding s s' s'' option.case by blast
qed

text \<open>
  C2.  \<^verbatim>\<open>once\<close> puts the node of the connection it returns into \<open>onceL\<close>.  Take
  any node of \<open>onceL\<close> in a reachable state, whether a call from outside or a
  listener registered it, and any sequence of calls from outside after that
  state (registrations, erasures, clears and publishes, with whatever the
  listeners do in them).  The node has not been called before, and it is called
  at most once in all.  If it has not been called when its connection is
  erased, it is not called in any continuation either.
\<close>

theorem once_called_at_most_once:
  assumes "execs xs0 Emitter = Some s0" "n \<in> set (onceL_of t s0)" "execs xs s0 = Some s"
  shows "cnode (fst (once t f s)) \<in> set (onceL_of t (snd (once t f s))) \<and>
    n \<notin> at ` set (trace s0) \<and>
    count_list (map at (trace s)) n \<le> 1 \<and>
    (\<forall>s' ys s''. n \<notin> at ` set (trace s) \<and> erase (Connection t n) s = Some s' \<and>
         execs ys s' = Some s'' \<longrightarrow>
       n \<notin> at ` set (trace s''))"
proof -
  have w0: "wf [] s0" by (rule reachable_wf [OF assms(1)])
  have new: "n \<notin> at ` set (trace s0)"
    using reachable_unspent [OF assms(1)] assms(2) by (simp add: unspent_def)
  with assms(2) have "at_most_once t n s0"
    by (simp add: at_most_once_def)
  then have a: "at_most_once t n s"
    by (rule execs_at_most_once [OF assms(3) w0])
  have w: "wf [] s" by (rule execs_wf [OF assms(3) w0])
  have count: "count_list (map at (trace s)) n \<le> 1"
    using a unfolding at_most_once_def by (auto simp: count_list_absent)
  have below: "n < fresh s"
  proof -
    have "n \<in> set (lists t s) \<union> set [] \<or> n < fresh s"
      using a unfolding at_most_once_def lists_def by auto
    then show ?thesis
      using wf_dom_fresh [OF w wf_lists_dom [OF w]] by blast
  qed
  have never: "n \<notin> at ` set (trace s'')"
    if "n \<notin> at ` set (trace s)" "erase (Connection t n) s = Some s'" "execs ys s' = Some s''"
    for s' ys s''
  proof -
    have "exec (OpErase (Connection t n)) s = Some s'" using that(2) by simp
    then have w': "wf [] s'" by (rule exec_wf [OF _ w])
    from that(2) obtain b l where "nodes s n = Some (b, l)"
      unfolding erase_Some by auto
    then have "n \<in> dom (nodes s)" by auto
    then have "first s' n"
      using first_marked [OF erase_fields(1) [OF that(2)], of n] by simp
    then have "dead n s'"
      unfolding dead_def using below that(1) erase_fields(2,3) [OF that(2)] by simp
    from execs_dead [OF that(3) w' this] show ?thesis by (simp add: dead_def)
  qed
  have reg: "cnode (fst (once t f s)) \<in> set (onceL_of t (snd (once t f s)))"
    by (simp add: onceL_of_once)
  from reg new count never show ?thesis by blast
qed

theorem once_called_at_most_once_witness:
  "(case execs [OpOnce 0 (Listener ''D'' [Once 0 (Listener ''Y'' [])])] (Emitter :: nat emitter) of
      None \<Rightarrow> False
    | Some s0 \<Rightarrow>
        onceL_of 0 s0 = [0] \<and>
        (case execs [OpPublish 0 1, OpPublish 0 2, OpPublish 0 3] s0 of
           None \<Rightarrow> False
         | Some s \<Rightarrow>
             map (name \<circ> callee) (trace s) = [''D'', ''Y''] \<and>
             count_list (map at (trace s)) 0 = 1 \<and> count_list (map at (trace s)) 1 = 1) \<and>
        (case erase (Connection 0 0) s0 of
           None \<Rightarrow> False
         | Some s' \<Rightarrow>
            (case execs [OpPublish 0 1, OpPublish 0 2] s' of
               None \<Rightarrow> False
             | Some s'' \<Rightarrow> 0 \<notin> at ` set (trace s''))))"
proof -
  let ?ys = "[OpOnce 0 (Listener ''D'' [Once 0 (Listener ''Y'' [])])] :: nat op list"
  let ?xs = "[OpPublish 0 1, OpPublish 0 2, OpPublish 0 3] :: nat op list"
  let ?zs = "[OpPublish 0 1, OpPublish 0 2] :: nat op list"
  let ?s0 = "the (execs ?ys Emitter)"
  have "execs ?ys Emitter \<noteq> None" by code_simp
  then obtain s0 where s0: "execs ?ys Emitter = Some s0" by blast
  have "execs ?xs ?s0 \<noteq> None" by code_simp
  then obtain s where s: "execs ?xs s0 = Some s"
    unfolding s0 option.sel by blast
  have "erase (Connection 0 0) ?s0 \<noteq> None" by code_simp
  then obtain s' where s': "erase (Connection 0 0) s0 = Some s'"
    unfolding s0 option.sel by blast
  have "execs ?zs (the (erase (Connection 0 0) ?s0)) \<noteq> None" by code_simp
  then obtain s'' where s'': "execs ?zs s' = Some s''"
    unfolding s0 option.sel s' by blast
  have "onceL_of 0 ?s0 = [0]" "trace ?s0 = []"
    "map (name \<circ> callee) (trace (the (execs ?xs ?s0))) = [''D'', ''Y'']"
    "count_list (map at (trace (the (execs ?xs ?s0)))) 0 = 1"
    "count_list (map at (trace (the (execs ?xs ?s0)))) 1 = 1"
    by code_simp+
  then have v: "onceL_of 0 s0 = [0]" "trace s0 = []"
    "map (name \<circ> callee) (trace s) = [''D'', ''Y'']"
    "count_list (map at (trace s)) 0 = 1" "count_list (map at (trace s)) 1 = 1"
    unfolding s0 option.sel s by blast+
  have in0: "0 \<in> set (onceL_of 0 s0)" using v(1) by simp
  have e: "execs [] s0 = Some s0" by simp
  have "0 \<notin> at ` set (trace s0)" using v(2) by simp
  with once_called_at_most_once [OF s0 in0 e] s' s''
  have "0 \<notin> at ` set (trace s'')" by blast
  moreover from once_called_at_most_once [OF s0 in0 s]
  have "count_list (map at (trace s)) 0 \<le> 1" by blast
  ultimately show ?thesis
    using v unfolding s0 s s' s'' option.case by blast
qed

text \<open>
  C3.  \<^verbatim>\<open>Handler::publish\<close> first swaps \<open>onceL\<close> with its empty local list, so
  the listeners run on an emitter whose \<open>onceL\<close> for the type is empty, and the
  second loop visits the local list.  A publish returns when every \<^verbatim>\<open>erase\<close>
  in the bodies of the listeners of its type is of a connection whose node
  exists.  No node made during a publish is called by it.  A \<^verbatim>\<open>once\<close> in the
  body of a called listener leaves a node in \<open>onceL\<close> of its type, and every
  node of \<open>onceL\<close> after the publish is such a new node; the next publish of the
  type calls it, if its flag is not set by then and no listener of the type
  sets it.
\<close>

theorem once_during_publish_deferred:
  assumes "execs xs Emitter = Some s"
  shows "onceL_of t (start t s) = [] \<and>
    (sound t s \<longrightarrow> (\<exists>s'. publish t ev s = Some s')) \<and>
    (\<forall>s'. publish t ev s = Some s' \<longrightarrow>
      map_option (finish t (onceL_of t s) \<circ> snd)
        (dispatch (rev (onL_of t s) @ rev (onceL_of t s)) ev (start t s)) = Some s' \<and>
      (\<forall>c \<in> set (calls_of s s'). at c < fresh s) \<and>
      (\<forall>c \<in> set (calls_of s s'). \<forall>t' g. Once t' g \<in> set (body (callee c)) \<longrightarrow>
         (\<exists>n b. fresh s \<le> n \<and> n \<in> set (onceL_of t' s') \<and> nodes s' n = Some (b, g))) \<and>
      (\<forall>ev'. sound t s' \<longrightarrow> (\<exists>s''. publish t ev' s' = Some s'')) \<and>
      (\<forall>n \<in> set (onceL_of t s'). fresh s \<le> n \<and> n \<notin> at ` set (calls_of s s') \<and>
         (\<forall>ev' s''. publish t ev' s' = Some s'' \<and> \<not> first s' n \<and> spares t n s' \<longrightarrow>
            n \<in> at ` set (calls_of s' s''))))"
    (is "_ \<and> _ \<and> (\<forall>s'. _ \<longrightarrow> ?Q s')")
proof -
  have w: "wf [] s" by (rule reachable_wf [OF assms])
  have swapped: "onceL_of t (start t s) = []" by simp
  have ret: "sound t s \<longrightarrow> (\<exists>s'. publish t ev s = Some s')"
    using publish_returns [OF w] by blast
  have rest: "?Q s'" if pub: "publish t ev s = Some s'" for s'
  proof -
    note r = once_during_publish_deferred_returned [OF assms pub]
    note eq = r [THEN conjunct2, THEN conjunct1]
    note old = r [THEN conjunct2, THEN conjunct2, THEN conjunct1]
    note kept = r [THEN conjunct2, THEN conjunct2, THEN conjunct2, THEN conjunct1]
    note pending = r [THEN conjunct2, THEN conjunct2, THEN conjunct2, THEN conjunct2]
    have again: "\<forall>ev'. sound t s' \<longrightarrow> (\<exists>s''. publish t ev' s' = Some s'')"
      using publish_returns [OF publish_wf [OF pub w]] by blast
    show ?thesis by (intro conjI; fact eq old kept again pending)
  qed
  show ?thesis
    by (rule conjI [OF swapped], rule conjI [OF ret], rule allI, rule impI, erule rest)
qed

theorem once_during_publish_deferred_witness:
  "(case execs [OpOn 0 (Listener ''A'' [Once 0 (Listener ''Y'' [])])] (Emitter :: nat emitter) of
      None \<Rightarrow> False
    | Some s \<Rightarrow>
       (case publish 0 1 s of
          None \<Rightarrow> False
        | Some s' \<Rightarrow>
           (case publish 0 2 s' of
              None \<Rightarrow> False
            | Some s'' \<Rightarrow>
                fresh s = 1 \<and> map (name \<circ> callee) (calls_of s s') = [''A''] \<and>
                onceL_of 0 s' = [1] \<and> \<not> first s' 1 \<and> spares 0 1 s' \<and>
                1 \<in> at ` set (calls_of s' s'') \<and>
                map (name \<circ> callee) (calls_of s' s'') = [''A'', ''Y''])))"
proof -
  let ?xs = "[OpOn 0 (Listener ''A'' [Once 0 (Listener ''Y'' [])])] :: nat op list"
  let ?s = "the (execs ?xs Emitter)"
  let ?s' = "the (publish 0 1 ?s)"
  let ?s'' = "the (publish 0 2 ?s')"
  have "execs ?xs Emitter \<noteq> None" by code_simp
  then obtain s where s: "execs ?xs Emitter = Some s" by blast
  have "publish 0 1 ?s \<noteq> None" by code_simp
  then obtain s' where s': "publish 0 1 s = Some s'"
    unfolding s option.sel by blast
  have "publish 0 2 ?s' \<noteq> None" by code_simp
  then obtain s'' where s'': "publish 0 2 s' = Some s''"
    unfolding s option.sel s' by blast
  have "fresh ?s = 1" "map (name \<circ> callee) (calls_of ?s ?s') = [''A'']"
    "onceL_of 0 ?s' = [1]" "\<not> first ?s' 1" "spares 0 1 ?s'"
    "map (name \<circ> callee) (calls_of ?s' ?s'') = [''A'', ''Y'']"
    by code_simp+
  then have v: "fresh s = 1" "map (name \<circ> callee) (calls_of s s') = [''A'']"
    "onceL_of 0 s' = [1]" "\<not> first s' 1" "spares 0 1 s'"
    "map (name \<circ> callee) (calls_of s' s'') = [''A'', ''Y'']"
    unfolding s option.sel s' s'' by blast+
  have "1 \<in> set (onceL_of 0 s')" using v(3) by simp
  note deferred = once_during_publish_deferred [OF s, of 0 1, THEN conjunct2, THEN conjunct2,
      THEN spec, THEN mp, OF s']
  from deferred [THEN conjunct2, THEN conjunct2, THEN conjunct2, THEN conjunct2, THEN bspec,
      OF \<open>1 \<in> set (onceL_of 0 s')\<close>] s'' v(4,5)
  have "1 \<in> at ` set (calls_of s' s'')" by blast
  with v show ?thesis
    unfolding s s' s'' option.case by blast
qed

text \<open>
  C4.  A publish returns when every \<^verbatim>\<open>erase\<close> in the bodies of the listeners
  of its type is of a connection whose node exists.  Let a listener that a
  publish calls have in its body an \<^verbatim>\<open>erase\<close> of the connection of node \<open>n\<close>
  (or a \<^verbatim>\<open>clear\<close> of the type, or \<^verbatim>\<open>clearAll\<close>), where \<open>n\<close> is a node of \<open>onL\<close>
  nearer to the front than the node of that listener, so that the loop has not
  reached it.  Then the publish does not call \<open>n\<close>, and when it returns \<open>n\<close> is
  no longer in \<open>onL\<close> and has been destroyed.  Every node of \<open>onL\<close> exists and
  has its flag not set when publish returns.
\<close>

theorem erase_during_publish:
  assumes "execs xs Emitter = Some s"
  shows "(sound t s \<longrightarrow> (\<exists>s'. publish t ev s = Some s')) \<and>
    (\<forall>s'. publish t ev s = Some s' \<longrightarrow>
      (\<forall>c a n X Y Z.
         c \<in> set (calls_of s s') \<and> a \<in> set (body (callee c)) \<and> kills t n a \<and>
         onL_of t s = X @ n # Y @ at c # Z \<longrightarrow>
         n \<notin> at ` set (calls_of s s') \<and> n \<notin> set (onL_of t s') \<and> nodes s' n = None) \<and>
      (\<forall>k \<in> set (onL_of t s'). \<not> first s' k \<and> k \<in> dom (nodes s')))"
proof -
  have w: "wf [] s" by (rule reachable_wf [OF assms])
  have ret: "sound t s \<longrightarrow> (\<exists>s'. publish t ev s = Some s')"
    using publish_returns [OF w] by blast
  have killed: "n \<notin> at ` set (calls_of s s') \<and> n \<notin> set (onL_of t s') \<and> nodes s' n = None"
    if "publish t ev s = Some s'" "c \<in> set (calls_of s s')" "a \<in> set (body (callee c))"
      "kills t n a" "onL_of t s = X @ n # Y @ at c # Z" for s' c a n X Y Z
    using erase_during_publish_returned [OF assms that] by blast
  have clean: "\<not> first s' k \<and> k \<in> dom (nodes s')"
    if pub: "publish t ev s = Some s'" and k: "k \<in> set (onL_of t s')" for s' k
  proof -
    from publish_facts [OF w pub] obtain s2 where
      s': "s' = finish t (onceL_of t s) s2" and w2: "wf (onceL_of t s) s2"
      by metis
    from k have k2: "k \<in> set (onL_of t s2)" "\<not> first s2 k" by (simp_all add: s')
    then have "k \<notin> set (onceL_of t s)"
      using w2 unfolding wf_def lists_def by auto
    with k2 have "\<not> first s' k" by (simp add: s' first_def)
    moreover have "k \<in> set (lists t s') \<union> set []"
      using k by (simp add: lists_def)
    then have "k \<in> dom (nodes s')"
      by (rule wf_lists_dom [OF publish_wf [OF pub w]])
    ultimately show ?thesis by simp
  qed
  from ret killed clean show ?thesis by blast
qed

theorem erase_during_publish_witness:
  "(case execs [OpOn 0 (Listener ''A'' [Erase (Connection 0 1)]), OpOn 0 (Listener ''B'' [])]
          (Emitter :: nat emitter) of
      None \<Rightarrow> False
    | Some s \<Rightarrow>
       (case publish 0 5 s of
          None \<Rightarrow> False
        | Some s' \<Rightarrow>
            onL_of 0 s = [1, 0] \<and> \<not> first s 1 \<and>
            map (name \<circ> callee) (calls_of s s') = [''A''] \<and>
            at (hd (calls_of s s')) = 0 \<and>
            list_ex (kills 0 1) (body (callee (hd (calls_of s s')))) \<and>
            1 \<notin> at ` set (calls_of s s') \<and> onL_of 0 s' = [0] \<and> nodes s' 1 = None))"
proof -
  let ?xs = "[OpOn 0 (Listener ''A'' [Erase (Connection 0 1)]), OpOn 0 (Listener ''B'' [])]
             :: nat op list"
  let ?s = "the (execs ?xs Emitter)"
  let ?s' = "the (publish 0 5 ?s)"
  have "execs ?xs Emitter \<noteq> None" by code_simp
  then obtain s where s: "execs ?xs Emitter = Some s" by blast
  have "publish 0 5 ?s \<noteq> None" by code_simp
  then obtain s' where s': "publish 0 5 s = Some s'"
    unfolding s option.sel by blast
  have "onL_of 0 ?s = [1, 0]" "\<not> first ?s 1"
    "map (name \<circ> callee) (calls_of ?s ?s') = [''A'']"
    "at (hd (calls_of ?s ?s')) = 0"
    "list_ex (kills 0 1) (body (callee (hd (calls_of ?s ?s'))))"
    "onL_of 0 ?s' = [0]"
    by code_simp+
  then have v: "onL_of 0 s = [1, 0]" "\<not> first s 1"
    "map (name \<circ> callee) (calls_of s s') = [''A'']"
    "at (hd (calls_of s s')) = 0"
    "list_ex (kills 0 1) (body (callee (hd (calls_of s s'))))"
    "onL_of 0 s' = [0]"
    unfolding s option.sel s' by blast+
  from v(3) have "calls_of s s' \<noteq> []" by auto
  then have c: "hd (calls_of s s') \<in> set (calls_of s s')" by simp
  from v(5) obtain a where a: "a \<in> set (body (callee (hd (calls_of s s'))))" "kills 0 1 a"
    unfolding list_ex_iff by blast
  have "onL_of 0 s = [] @ 1 # [] @ at (hd (calls_of s s')) # []"
    using v(1,4) by simp
  from erase_during_publish [OF s, of 0 5, THEN conjunct2, THEN spec, THEN mp, OF s',
      THEN conjunct1] c a this
  have "1 \<notin> at ` set (calls_of s s') \<and> nodes s' 1 = None" by blast
  with v show ?thesis
    unfolding s s' option.case by blast
qed

text \<open>
  C5.  In every state that calls from outside can reach, \<^verbatim>\<open>empty<E>()\<close> is true
  exactly when the event type has no handler (it was never touched), or every
  element of both lists of its handler has its flag set.
\<close>

theorem empty_type_iff_all_tombstoned:
  assumes "execs xs Emitter = Some s"
  shows "empty_type t s \<longleftrightarrow>
    (case slot t s of
       None \<Rightarrow> True
     | Some h \<Rightarrow> \<forall>n \<in> set (onceL h) \<union> set (onL h). \<exists>f. nodes s n = Some (True, f))"
proof (cases "slot t s")
  case None
  then show ?thesis
    by (auto simp: empty_type_def slot_def split: if_splits)
next
  case (Some h)
  have w: "wf [] s" by (rule reachable_wf [OF assms])
  have l: "onceL_of t s = onceL h" "onL_of t s = onL h"
    using Some by (simp_all add: onceL_of_def onL_of_def)
  have "first s n \<longleftrightarrow> (\<exists>f. nodes s n = Some (True, f))" if "n \<in> set (onceL h) \<union> set (onL h)" for n
    using wf_first [OF w, of n t] that l by (auto simp: lists_def)
  moreover have "t < length (handlers s)" "handlers s ! t \<noteq> None"
    using Some by (auto simp: slot_def split: if_splits)
  ultimately show ?thesis
    using Some l by (auto simp: empty_type_def Handler_empty_def list_all_iff)
qed

theorem empty_type_iff_all_tombstoned_witness:
  "(case execs [OpOn 0 (Listener ''A'' []), OpOnce 0 (Listener ''B'' []), OpErase (Connection 0 0)]
          (Emitter :: nat emitter) of
      None \<Rightarrow> False
    | Some s \<Rightarrow>
        \<not> empty_type 0 s \<and> slot 0 s = Some \<lparr>addr = 0, onceL = [1], onL = [0]\<rparr> \<and>
        first s 0 \<and> \<not> first s 1 \<and> empty_type 1 s \<and> slot 1 s = None)"
proof -
  let ?xs = "[OpOn 0 (Listener ''A'' []), OpOnce 0 (Listener ''B'' []), OpErase (Connection 0 0)]"
  have "execs ?xs (Emitter :: nat emitter) \<noteq> None"
    by code_simp
  then obtain s where s: "execs ?xs (Emitter :: nat emitter) = Some s"
    by blast
  have v: "slot 0 (the (execs ?xs (Emitter :: nat emitter))) = Some \<lparr>addr = 0, onceL = [1], onL = [0]\<rparr>"
    "first (the (execs ?xs (Emitter :: nat emitter))) 0"
    "\<not> first (the (execs ?xs (Emitter :: nat emitter))) 1"
    "slot 1 (the (execs ?xs (Emitter :: nat emitter))) = None"
    by code_simp+
  from empty_type_iff_all_tombstoned [OF s, of 0] empty_type_iff_all_tombstoned [OF s, of 1] v
  show ?thesis
    unfolding s by (auto simp: first_def split: option.splits)
qed

text \<open>
  C6.  \<^verbatim>\<open>handler<E>()\<close> leaves the vector as long as it was when the id is below
  its length, and otherwise makes it exactly id + 1 long, the new slots empty
  and the old ones as they were.  It makes a handler only when the slot is
  empty; when the slot holds a handler it changes nothing.  In a reachable
  state, whatever calls follow, a slot that holds a handler holds a handler at
  the same address afterwards, and the number of handlers made is the number of
  slots that hold one.
\<close>

theorem handler_made_once:
  "length (handlers (handler t s)) = (if t < length (handlers s) then length (handlers s) else t + 1) \<and>
   (\<forall>i. i < length (handlers (handler t s)) \<and> i \<noteq> t \<longrightarrow>
      handlers (handler t s) ! i = (if i < length (handlers s) then handlers s ! i else None)) \<and>
   (slot t s = None \<longrightarrow>
      slot t (handler t s) = Some \<lparr>addr = made s, onceL = [], onL = []\<rparr> \<and>
      made (handler t s) = made s + 1) \<and>
   (slot t s \<noteq> None \<longrightarrow> handler t s = s) \<and>
   (\<forall>xs0 h xs s'. execs xs0 Emitter = Some s \<and> slot t s = Some h \<and> execs xs s = Some s' \<longrightarrow>
      (\<exists>h'. slot t s' = Some h' \<and> addr h' = addr h) \<and> made s' = live s')"
proof -
  have len: "length (handlers (handler t s)) =
      (if t < length (handlers s) then length (handlers s) else t + 1)"
    by (simp add: handler_def Let_def)
  have others: "handlers (handler t s) ! i = (if i < length (handlers s) then handlers s ! i else None)"
    if "i < length (handlers (handler t s))" "i \<noteq> t" for i
    using that by (auto simp: handler_def Let_def nth_append split: if_splits)
  have new: "slot t (handler t s) = Some \<lparr>addr = made s, onceL = [], onL = []\<rparr> \<and>
      made (handler t s) = made s + 1" if "slot t s = None"
    using that by (simp add: slot_handler made_handler)
  have later: "(\<exists>h'. slot t s' = Some h' \<and> addr h' = addr h) \<and> made s' = live s'"
    if "execs xs0 Emitter = Some s" "slot t s = Some h" "execs xs s = Some s'" for xs0 h xs s'
  proof -
    have w: "wf [] s" by (rule reachable_wf [OF that(1)])
    have "keeps Emitter s" by (rule execs_keeps [OF that(1) Emitter_wf])
    moreover have "made (Emitter :: 'a emitter) = live (Emitter :: 'a emitter)"
      by (rule Emitter_live)
    ultimately have "made s = live s" unfolding keeps_def by blast
    moreover have "keeps s s'" by (rule execs_keeps [OF that(3) w])
    ultimately show ?thesis using that(2) unfolding keeps_def by blast
  qed
  from len others new handler_present [of t s] later show ?thesis
    by (intro conjI allI impI) blast+
qed

theorem handler_made_once_witness:
  "(case execs [OpOn 2 (Listener ''A'' [On 1 (Listener ''B'' [])])] (Emitter :: nat emitter) of
      None \<Rightarrow> False
    | Some s \<Rightarrow>
       (case execs [OpOnce 2 (Listener ''C'' []), OpPublish 2 7, OpClearAll, OpOn 4 (Listener ''D'' [])] s of
          None \<Rightarrow> False
        | Some s' \<Rightarrow>
            handlers s = [None, None, Some \<lparr>addr = 0, onceL = [], onL = [0]\<rparr>] \<and>
            length (handlers (handler 4 s)) = 5 \<and> length (handlers (handler 1 s)) = 3 \<and>
            length (handlers s') = 5 \<and>
            map (map_option addr) (handlers s') = [None, Some 1, Some 0, None, Some 2] \<and>
            made s' = 3 \<and> live s' = 3 \<and>
            (\<exists>h'. slot 2 s' = Some h' \<and> addr h' = 0)))"
proof -
  let ?ys = "[OpOn 2 (Listener ''A'' [On 1 (Listener ''B'' [])])] :: nat op list"
  let ?xs = "[OpOnce 2 (Listener ''C'' []), OpPublish 2 7, OpClearAll, OpOn 4 (Listener ''D'' [])]
             :: nat op list"
  let ?s = "the (execs ?ys Emitter)"
  let ?s' = "the (execs ?xs ?s)"
  have "execs ?ys Emitter \<noteq> None" by code_simp
  then obtain s where s: "execs ?ys Emitter = Some s" by blast
  have "execs ?xs ?s \<noteq> None" by code_simp
  then obtain s' where s': "execs ?xs s = Some s'"
    unfolding s option.sel by blast
  have "handlers ?s = [None, None, Some \<lparr>addr = 0, onceL = [], onL = [0]\<rparr>]"
    "length (handlers (handler 4 ?s)) = 5" "length (handlers (handler 1 ?s)) = 3"
    "length (handlers ?s') = 5"
    "map (map_option addr) (handlers ?s') = [None, Some 1, Some 0, None, Some 2]"
    "made ?s' = 3" "live ?s' = 3"
    by code_simp+
  then have v: "handlers s = [None, None, Some \<lparr>addr = 0, onceL = [], onL = [0]\<rparr>]"
    "length (handlers (handler 4 s)) = 5" "length (handlers (handler 1 s)) = 3"
    "length (handlers s') = 5"
    "map (map_option addr) (handlers s') = [None, Some 1, Some 0, None, Some 2]"
    "made s' = 3" "live s' = 3"
    unfolding s option.sel s' by blast+
  have "slot 2 s = Some \<lparr>addr = 0, onceL = [], onL = [0]\<rparr>"
    by (simp add: slot_def v(1))
  with handler_made_once [of 2 s] s s'
  have "\<exists>h'. slot 2 s' = Some h' \<and> addr h' = addr \<lparr>addr = 0, onceL = [], onL = [0]\<rparr>"
    by blast
  then have "\<exists>h'. slot 2 s' = Some h' \<and> addr h' = 0" by simp
  with v show ?thesis
    unfolding s s' option.case by blast
qed

text \<open>
  C7.  \<^verbatim>\<open>clear<E>()\<close> is documented to disconnect all the listeners of the
  event type, and \<^verbatim>\<open>erase\<close> of every connection of the type does.
  \<^verbatim>\<open>Handler::clear\<close> sets the flag of the nodes of \<open>onceL\<close> and \<open>onL\<close>; during
  a publish the nodes of the former \<open>onceL\<close> are in the local list of
  \<^verbatim>\<open>Handler::publish\<close>, where \<^verbatim>\<open>clear\<close> does not reach them but \<^verbatim>\<open>erase\<close>
  does.  With the one-shot listener \<open>D\<close> and the persistent listener \<open>A\<close>
  registered, a publish in which \<open>A\<close> clears the type calls \<open>A\<close> and then \<open>D\<close>,
  while a publish in which \<open>A\<close> erases the two connections calls \<open>A\<close> only: in
  the emitter as the listeners of a publish find it, \<^verbatim>\<open>clear\<close> leaves the flag
  of the node of \<open>D\<close> unset and \<^verbatim>\<open>erase\<close> sets it.
\<close>

theorem clear_during_publish_misses_pending_once:
  "(case execs [OpOnce 0 (Listener ''D'' []), OpOn 0 (Listener ''A'' [Clear 0]), OpPublish 0 1]
          (Emitter :: nat emitter) of
      None \<Rightarrow> False
    | Some s \<Rightarrow> map (name \<circ> callee) (trace s) = [''A'', ''D'']) \<and>
   (case execs [OpOnce 0 (Listener ''D'' []),
                OpOn 0 (Listener ''A'' [Erase (Connection 0 0), Erase (Connection 0 1)]),
                OpPublish 0 1] (Emitter :: nat emitter) of
      None \<Rightarrow> False
    | Some s \<Rightarrow> map (name \<circ> callee) (trace s) = [''A'']) \<and>
   (case execs [OpOnce 0 (Listener ''D'' [])] (Emitter :: nat emitter) of
      None \<Rightarrow> False
    | Some s \<Rightarrow>
        \<not> first (clear 0 (start 0 s)) 0 \<and>
        (case erase (Connection 0 0) (start 0 s) of None \<Rightarrow> False | Some s' \<Rightarrow> first s' 0))"
  by code_simp

text \<open>
  C8.  A publish returns when every \<^verbatim>\<open>erase\<close> in the bodies of the listeners
  of its type is of a connection whose node exists.  The calls of one publish
  all work on the one event of that publish: the first call is handed the
  published event, and each later call is handed the event as the body of the
  call before it left it, whichever of the two lists the two listeners are in.
\<close>

theorem publish_shares_event:
  assumes "execs xs Emitter = Some s"
  shows "(sound t s \<longrightarrow> (\<exists>s'. publish t ev s = Some s')) \<and>
    (\<forall>s'. publish t ev s = Some s' \<longrightarrow>
      map seen (calls_of s s') = seens ev (calls_of s s') \<and>
      (\<forall>c \<in> set (calls_of s s'). nodes s (at c) = Some (False, callee c)) \<and>
      (\<forall>i. Suc i < length (calls_of s s') \<longrightarrow>
         seen (calls_of s s' ! Suc i) =
           effect (callee (calls_of s s' ! i)) (seen (calls_of s s' ! i))))"
proof -
  have w: "wf [] s" by (rule reachable_wf [OF assms])
  have ret: "sound t s \<longrightarrow> (\<exists>s'. publish t ev s = Some s')"
    using publish_returns [OF w] by blast
  show ?thesis
    by (rule conjI [OF ret], rule allI, rule impI, erule publish_shares_event_returned [OF assms])
qed

theorem publish_shares_event_witness:
  "(case execs [OpOn 0 (Listener ''A'' [Mutate (\<lambda>x. x + 1)]),
                OpOn 0 (Listener ''B'' [Mutate (\<lambda>x. x * 2)]),
                OpOnce 0 (Listener ''D'' [])] (Emitter :: nat emitter) of
      None \<Rightarrow> False
    | Some s \<Rightarrow>
       (case publish 0 5 s of
          None \<Rightarrow> False
        | Some s' \<Rightarrow>
            map (name \<circ> callee) (calls_of s s') = [''A'', ''B'', ''D''] \<and>
            map seen (calls_of s s') = [5, 6, 12] \<and>
            map seen (calls_of s s') = seens 5 (calls_of s s')))"
proof -
  let ?xs = "[OpOn 0 (Listener ''A'' [Mutate (\<lambda>x. x + 1)]),
              OpOn 0 (Listener ''B'' [Mutate (\<lambda>x. x * 2)]),
              OpOnce 0 (Listener ''D'' [])] :: nat op list"
  have "execs ?xs Emitter \<noteq> None" by code_simp
  then obtain s where s: "execs ?xs Emitter = Some s" by blast
  have "publish 0 5 (the (execs ?xs Emitter)) \<noteq> None" by code_simp
  then obtain s' where s': "publish 0 5 s = Some s'"
    unfolding s option.sel by blast
  have "map (name \<circ> callee) (calls_of (the (execs ?xs Emitter))
          (the (publish 0 5 (the (execs ?xs Emitter))))) = [''A'', ''B'', ''D'']"
    "map seen (calls_of (the (execs ?xs Emitter))
          (the (publish 0 5 (the (execs ?xs Emitter))))) = [5, 6, 12]"
    by code_simp+
  then have v: "map (name \<circ> callee) (calls_of s s') = [''A'', ''B'', ''D'']"
    "map seen (calls_of s s') = [5, 6, 12]"
    unfolding s option.sel s' by blast+
  from publish_shares_event [OF s, of 0 5, THEN conjunct2, THEN spec, THEN mp, OF s']
  have "map seen (calls_of s s') = seens 5 (calls_of s s')"
    by blast
  with v show ?thesis
    unfolding s s' option.case by blast
qed

text \<open>\<^verbatim>\<open>erase<E>\<close> dereferences the iterator of the connection unchecked, also
  when nothing was ever registered for \<open>E\<close>: with a connection whose node does
  not exist, here the default one and the past-the-end one, the behaviour is
  undefined, while \<^verbatim>\<open>empty<E>()\<close> answers.\<close>

theorem erase_untouched_type_counterexample:
  "(case erase (Connection 0 0) (Emitter :: nat emitter) of None \<Rightarrow> True | Some s' \<Rightarrow> False) \<and>
   (case execs [OpOn 1 (Listener ''A'' []), OpPublish 0 7] (Emitter :: nat emitter) of
      None \<Rightarrow> False
    | Some s \<Rightarrow>
        empty_type 0 s \<and> fresh s = 1 \<and>
        (case erase (Connection 0 1) s of None \<Rightarrow> True | Some s' \<Rightarrow> False))"
  by code_simp

text \<open>
  C9.  When no call so far, from outside or by a called listener, registered a
  listener for the event type, both lists of the type are empty.  For a type
  whose lists are empty, whether or not its handler has been made,
  \<^verbatim>\<open>empty<E>()\<close> is true.  \<^verbatim>\<open>publish<E>\<close> returns; it calls no listener, leaves
  every node and every list as it was and the answers of \<^verbatim>\<open>empty<E>()\<close> and
  \<^verbatim>\<open>empty()\<close> unchanged, and the handler of the type exists afterwards.
  \<^verbatim>\<open>clear<E>()\<close> changes no node and leaves \<^verbatim>\<open>empty<E>()\<close> true, and \<^verbatim>\<open>on\<close>
  and \<^verbatim>\<open>once\<close> register the first listener of the type; each makes the
  handler when it is missing.  \<^verbatim>\<open>erase<E>\<close> is defined exactly when the node
  of the connection exists; every node that exists is in a list of another
  type, so no connection that was made for this type can be erased.
\<close>

theorem untouched_type_no_error:
  assumes "execs xs Emitter = Some s"
  shows "(never_registered t xs Emitter \<longrightarrow> onL_of t s = [] \<and> onceL_of t s = []) \<and>
    (onL_of t s = [] \<and> onceL_of t s = [] \<longrightarrow>
      empty_type t s \<and>
      (\<exists>s'. publish t ev s = Some s' \<and> trace s' = trace s \<and> nodes s' = nodes s \<and>
         (\<forall>t'. onL_of t' s' = onL_of t' s \<and> onceL_of t' s' = onceL_of t' s) \<and>
         empty_type t s' \<and> empty_all s' = empty_all s \<and> slot t s' \<noteq> None) \<and>
      (nodes (clear t s) = nodes s \<and> empty_type t (clear t s) \<and> slot t (clear t s) \<noteq> None) \<and>
      (slot t (snd (on t f s)) \<noteq> None \<and> \<not> empty_type t (snd (on t f s)) \<and>
       slot t (snd (once t f s)) \<noteq> None \<and> \<not> empty_type t (snd (once t f s))) \<and>
      (erase (Connection t n) s = None \<longleftrightarrow> nodes s n = None) \<and>
      (\<forall>m \<in> dom (nodes s). \<exists>t'. t' \<noteq> t \<and> m \<in> set (lists t' s)) \<and>
      (\<forall>s'. erase (Connection t n) s = Some s' \<longrightarrow> slot t s' \<noteq> None \<and> empty_type t s'))"
    (is "?never \<and> (?nil \<longrightarrow> ?Q)")
proof -
  have w: "wf [] s" by (rule reachable_wf [OF assms(1)])
  have never: ?never using reachable_never [OF assms] by blast
  have rest: ?Q if nil: "onL_of t s = []" "onceL_of t s = []"
  proof -
    note none = no_listeners [OF w nil]
    have reg: "slot t (snd (on t f s)) \<noteq> None \<and> \<not> empty_type t (snd (on t f s)) \<and>
       slot t (snd (once t f s)) \<noteq> None \<and> \<not> empty_type t (snd (once t f s))"
      by (simp add: slot_on slot_once on_not_empty once_not_empty)
    have er: "erase (Connection t n) s = None \<longleftrightarrow> nodes s n = None"
      by (simp add: erase_None)
    have other: "\<forall>m \<in> dom (nodes s). \<exists>t'. t' \<noteq> t \<and> m \<in> set (lists t' s)"
    proof
      fix m assume "m \<in> dom (nodes s)"
      from tightD [OF reachable_tight [OF assms(1)] this] obtain t' where "m \<in> set (lists t' s)"
        by auto
      moreover from this nil have "t' \<noteq> t" by (auto simp: lists_def)
      ultimately show "\<exists>t'. t' \<noteq> t \<and> m \<in> set (lists t' s)" by blast
    qed
    show ?thesis
      by (rule conjI [OF none(1)], rule conjI [OF none(2)], rule conjI [OF none(3)],
          rule conjI [OF reg], rule conjI [OF er], rule conjI [OF other], rule none(4))
  qed
  show ?thesis
    by (rule conjI [OF never], rule impI, elim conjE, erule (1) rest)
qed

text \<open>Listener A would register for type 0 but is never called; type 3 is
  published and cleared; no listener is registered for either.\<close>

theorem untouched_type_no_error_witness:
  "(case execs [OpOn 1 (Listener ''A'' [On 0 (Listener ''X'' [])]), OpPublish 3 7, OpClear 3]
          (Emitter :: nat emitter) of
      None \<Rightarrow> False
    | Some s \<Rightarrow>
        never_registered 3 [OpOn 1 (Listener ''A'' [On 0 (Listener ''X'' [])]), OpPublish 3 7,
          OpClear 3] (Emitter :: nat emitter) \<and>
        never_registered 0 [OpOn 1 (Listener ''A'' [On 0 (Listener ''X'' [])]), OpPublish 3 7,
          OpClear 3] (Emitter :: nat emitter) \<and>
        slot 0 s = None \<and> slot 3 s \<noteq> None \<and> length (handlers s) = 4 \<and>
        empty_type 0 s \<and> empty_type 3 s \<and> \<not> empty_type 1 s \<and>
        (case publish 3 8 s of
           None \<Rightarrow> False
         | Some s' \<Rightarrow> trace s' = trace s \<and> empty_type 3 s') \<and>
        (case publish 0 8 s of
           None \<Rightarrow> False
         | Some s' \<Rightarrow> trace s' = trace s \<and> empty_type 0 s' \<and> slot 0 s' \<noteq> None) \<and>
        empty_type 3 (clear 3 s) \<and> \<not> empty_type 3 (snd (on 3 (Listener ''B'' []) s)) \<and>
        erase (Connection 3 5) s = None)"
proof -
  let ?xs = "[OpOn 1 (Listener ''A'' [On 0 (Listener ''X'' [])]), OpPublish 3 7, OpClear 3]
             :: nat op list"
  let ?s = "the (execs ?xs Emitter)"
  have "execs ?xs Emitter \<noteq> None" by code_simp
  then obtain s where s: "execs ?xs Emitter = Some s" by blast
  have n3: "never_registered 3 ?xs Emitter" and n0: "never_registered 0 ?xs Emitter"
    by code_simp+
  have "slot 0 ?s = None" "slot 3 ?s \<noteq> None" "length (handlers ?s) = 4"
    "\<not> empty_type 1 ?s" "nodes ?s 5 = None"
    by code_simp+
  then have v: "slot 0 s = None" "slot 3 s \<noteq> None" "length (handlers s) = 4"
    "\<not> empty_type 1 s" "nodes s 5 = None"
    unfolding s option.sel by blast+
  note three = untouched_type_no_error [OF s, of 3 8 "Listener ''B'' []" 5]
  note zero = untouched_type_no_error [OF s, of 0 8 "Listener ''B'' []" 5]
  note three' = three [THEN conjunct2, THEN mp, OF three [THEN conjunct1, THEN mp, OF n3]]
  note zero' = zero [THEN conjunct2, THEN mp, OF zero [THEN conjunct1, THEN mp, OF n0]]
  from three' obtain s3 where
    s3: "publish 3 8 s = Some s3" "trace s3 = trace s" "empty_type 3 s3" "empty_type 3 s"
    by blast
  from zero' obtain s0 where
    s0: "publish 0 8 s = Some s0" "trace s0 = trace s" "empty_type 0 s0" "slot 0 s0 \<noteq> None"
      "empty_type 0 s"
    by blast
  from three' have c: "empty_type 3 (clear 3 s)" "\<not> empty_type 3 (snd (on 3 (Listener ''B'' []) s))"
    by blast+
  from three' v(5) have e: "erase (Connection 3 5) s = None" by blast
  show ?thesis
    using n3 n0 v s3 s0 c e unfolding s option.case by simp
qed

text \<open>
  C10.  The first loop of \<^verbatim>\<open>Handler::publish\<close> walks the live \<open>onL\<close> backwards
  from its end to the node that was first when the loop began; \<^verbatim>\<open>on\<close> inserts
  in front of that node, so the loop visits exactly the nodes \<open>onL\<close> had at the
  start.  A publish returns when every \<^verbatim>\<open>erase\<close> in the bodies of the
  listeners of its type is of a connection whose node exists.  No node made
  during a publish is called by it.  Take the calls that the bodies of the
  called listeners make, in order, and let the \<open>k\<close>-th be an \<^verbatim>\<open>on\<close> for the
  published type: it makes the node whose address is the counter at the start
  plus the number of registrations before it.  That node is not called by this
  publish.  When a later call of this publish sets its flag (\<^verbatim>\<open>erase\<close> of its
  connection, \<^verbatim>\<open>clear\<close> of the type, \<^verbatim>\<open>clearAll\<close>), \<^verbatim>\<open>remove_if\<close> destroys it.
  Otherwise it is in \<open>onL\<close> after the publish, unflagged, with the listener that
  was registered; and after any calls from outside that are not a publish of
  the type, the next publish of the type calls that listener, unless its flag
  was set by then or a listener of the type sets it.
\<close>

theorem on_during_publish_deferred:
  assumes "execs xs Emitter = Some s"
  shows "for_each_rev (onL_of t) (begin_it (onL_of t (start t s))) None ev (start t s)
      = dispatch (rev (onL_of t s)) ev (start t s) \<and>
    (sound t s \<longrightarrow> (\<exists>s'. publish t ev s = Some s')) \<and>
    (\<forall>s'. publish t ev s = Some s' \<longrightarrow>
      (\<forall>c \<in> set (calls_of s s'). at c < fresh s) \<and>
      (\<forall>c \<in> set (calls_of s s'). set (body (callee c)) \<subseteq> set (acts (calls_of s s'))) \<and>
      (\<forall>k g n. k < length (acts (calls_of s s')) \<and> acts (calls_of s s') ! k = On t g \<and>
           n = node_of s (acts (calls_of s s')) k \<longrightarrow>
         fresh s \<le> n \<and> n < fresh s' \<and> n \<notin> at ` set (calls_of s s') \<and>
         (if list_ex (kills t n) (drop (Suc k) (acts (calls_of s s')))
          then n \<notin> set (onL_of t s') \<and> nodes s' n = None
          else n \<in> set (onL_of t s') \<and> nodes s' n = Some (False, g) \<and>
            (\<forall>ys s1 ev' s''. execs ys s' = Some s1 \<and> \<not> list_ex (publishes t) ys \<and>
                 publish t ev' s1 = Some s'' \<and> \<not> first s1 n \<and> spares t n s1 \<longrightarrow>
               (\<exists>c \<in> set (calls_of s1 s''). at c = n \<and> callee c = g)))) \<and>
      (\<forall>n \<in> set (onL_of t s'). \<not> first s' n) \<and>
      (\<forall>ev'. sound t s' \<longrightarrow> (\<exists>s''. publish t ev' s' = Some s'')) \<and>
      (\<forall>n \<in> set (onL_of t s'). \<forall>ev' s''. publish t ev' s' = Some s'' \<longrightarrow>
         (spares t n s' \<longrightarrow> n \<in> at ` set (calls_of s' s'')) \<and>
         (n \<in> set (onL_of t s'') \<longrightarrow> n \<in> at ` set (calls_of s' s''))))"
    (is "_ \<and> _ \<and> (\<forall>s'. _ \<longrightarrow> ?Q s')")
proof -
  have w: "wf [] s" by (rule reachable_wf [OF assms])
  have live: "for_each_rev (onL_of t) (begin_it (onL_of t (start t s))) None ev (start t s)
      = dispatch (rev (onL_of t s)) ev (start t s)"
    using for_each_rev_live [OF start_wf [OF w], of t t ev] by simp
  have ret: "sound t s \<longrightarrow> (\<exists>s'. publish t ev s = Some s')"
    using publish_returns [OF w] by blast
  have rest: "?Q s'" if pub: "publish t ev s = Some s'" for s'
  proof -
    note r = on_during_publish_deferred_returned [OF assms pub]
    note old = r [THEN conjunct2, THEN conjunct1]
    note clean = r [THEN conjunct2, THEN conjunct2, THEN conjunct2, THEN conjunct1]
    note later = r [THEN conjunct2, THEN conjunct2, THEN conjunct2, THEN conjunct2]
    have bodies: "\<forall>c \<in> set (calls_of s s'). set (body (callee c)) \<subseteq> set (acts (calls_of s s'))"
      using acts_mem by blast
    have made: "\<forall>k g n. k < length (acts (calls_of s s')) \<and> acts (calls_of s s') ! k = On t g \<and>
           n = node_of s (acts (calls_of s s')) k \<longrightarrow>
         fresh s \<le> n \<and> n < fresh s' \<and> n \<notin> at ` set (calls_of s s') \<and>
         (if list_ex (kills t n) (drop (Suc k) (acts (calls_of s s')))
          then n \<notin> set (onL_of t s') \<and> nodes s' n = None
          else n \<in> set (onL_of t s') \<and> nodes s' n = Some (False, g) \<and>
            (\<forall>ys s1 ev' s''. execs ys s' = Some s1 \<and> \<not> list_ex (publishes t) ys \<and>
                 publish t ev' s1 = Some s'' \<and> \<not> first s1 n \<and> spares t n s1 \<longrightarrow>
               (\<exists>c \<in> set (calls_of s1 s''). at c = n \<and> callee c = g)))"
    proof (intro allI impI, elim conjE)
      fix k g n
      assume "k < length (acts (calls_of s s'))" "acts (calls_of s s') ! k = On t g"
        "n = node_of s (acts (calls_of s s')) k"
      then show "fresh s \<le> n \<and> n < fresh s' \<and> n \<notin> at ` set (calls_of s s') \<and>
         (if list_ex (kills t n) (drop (Suc k) (acts (calls_of s s')))
          then n \<notin> set (onL_of t s') \<and> nodes s' n = None
          else n \<in> set (onL_of t s') \<and> nodes s' n = Some (False, g) \<and>
            (\<forall>ys s1 ev' s''. execs ys s' = Some s1 \<and> \<not> list_ex (publishes t) ys \<and>
                 publish t ev' s1 = Some s'' \<and> \<not> first s1 n \<and> spares t n s1 \<longrightarrow>
               (\<exists>c \<in> set (calls_of s1 s''). at c = n \<and> callee c = g)))"
        by (rule on_during_publish_registered [OF assms pub])
    qed
    have again: "\<forall>ev'. sound t s' \<longrightarrow> (\<exists>s''. publish t ev' s' = Some s'')"
      using publish_returns [OF publish_wf [OF pub w]] by blast
    show ?thesis by (intro conjI; fact old bodies made clean again later)
  qed
  show ?thesis
    by (rule conjI [OF live], rule conjI [OF ret], rule allI, rule impI, erule rest)
qed

text \<open>Listener A registers the persistent listener X for the published type:
  the first publish calls A only, the second calls A and then X.\<close>

theorem on_during_publish_deferred_witness:
  "(case execs [OpOn 0 (Listener ''A'' [On 0 (Listener ''X'' [])])] (Emitter :: nat emitter) of
      None \<Rightarrow> False
    | Some s \<Rightarrow>
       (case publish 0 1 s of
          None \<Rightarrow> False
        | Some s' \<Rightarrow>
           (case publish 0 2 s' of
              None \<Rightarrow> False
            | Some s'' \<Rightarrow>
                fresh s = 1 \<and> onL_of 0 s = [0] \<and>
                map (name \<circ> callee) (calls_of s s') = [''A''] \<and>
                node_of s (acts (calls_of s s')) 0 = 1 \<and>
                onL_of 0 s' = [1, 0] \<and> \<not> first s' 1 \<and> spares 0 1 s' \<and>
                (\<exists>c \<in> set (calls_of s' s''). at c = 1 \<and> name (callee c) = ''X'') \<and>
                map (name \<circ> callee) (calls_of s' s'') = [''A'', ''X''])))"
proof -
  let ?xs = "[OpOn 0 (Listener ''A'' [On 0 (Listener ''X'' [])])] :: nat op list"
  let ?s = "the (execs ?xs Emitter)"
  let ?s' = "the (publish 0 1 ?s)"
  let ?s'' = "the (publish 0 2 ?s')"
  have "execs ?xs Emitter \<noteq> None" by code_simp
  then obtain s where s: "execs ?xs Emitter = Some s" by blast
  have "publish 0 1 ?s \<noteq> None" by code_simp
  then obtain s' where s': "publish 0 1 s = Some s'"
    unfolding s option.sel by blast
  have "publish 0 2 ?s' \<noteq> None" by code_simp
  then obtain s'' where s'': "publish 0 2 s' = Some s''"
    unfolding s option.sel s' by blast
  have "fresh ?s = 1" "onL_of 0 ?s = [0]" "map (name \<circ> callee) (calls_of ?s ?s') = [''A'']"
    "onL_of 0 ?s' = [1, 0]" "spares 0 1 ?s'"
    "map (name \<circ> callee) (calls_of ?s' ?s'') = [''A'', ''X'']"
    "node_of ?s (acts (calls_of ?s ?s')) 0 = 1" "\<not> first ?s' 1"
    "0 < length (acts (calls_of ?s ?s'))"
    "case acts (calls_of ?s ?s') ! 0 of On t g \<Rightarrow> t = 0 \<and> name g = ''X'' | _ \<Rightarrow> False"
    "\<not> list_ex (kills 0 1) (drop (Suc 0) (acts (calls_of ?s ?s')))"
    by code_simp+
  then have v: "fresh s = 1" "onL_of 0 s = [0]" "map (name \<circ> callee) (calls_of s s') = [''A'']"
    "onL_of 0 s' = [1, 0]" "spares 0 1 s'"
    "map (name \<circ> callee) (calls_of s' s'') = [''A'', ''X'']"
    "node_of s (acts (calls_of s s')) 0 = 1" "\<not> first s' 1"
    "0 < length (acts (calls_of s s'))"
    "case acts (calls_of s s') ! 0 of On t g \<Rightarrow> t = 0 \<and> name g = ''X'' | _ \<Rightarrow> False"
    "\<not> list_ex (kills 0 1) (drop (Suc 0) (acts (calls_of s s')))"
    unfolding s option.sel s' s'' by blast+
  from v(10) obtain g where g: "acts (calls_of s s') ! 0 = On 0 g" "name g = ''X''"
    by (cases "acts (calls_of s s') ! 0") simp_all
  note deferred = on_during_publish_deferred [OF s, of 0 1, THEN conjunct2, THEN conjunct2,
      THEN spec, THEN mp, OF s']
  note made = deferred [THEN conjunct2, THEN conjunct2, THEN conjunct1, THEN spec, THEN spec,
      THEN spec, THEN mp, of 0 g 1]
  have "0 < length (acts (calls_of s s')) \<and> acts (calls_of s s') ! 0 = On 0 g \<and>
      1 = node_of s (acts (calls_of s s')) 0"
    using v(9) g(1) v(7) by simp
  note kept = made [OF this, THEN conjunct2, THEN conjunct2, THEN conjunct2,
      unfolded if_not_P [OF v(11)]]
  have "execs [] s' = Some s' \<and> \<not> list_ex (publishes 0) [] \<and>
      publish 0 2 s' = Some s'' \<and> \<not> first s' 1 \<and> spares 0 1 s'"
    using s'' v(8) v(5) by simp
  from kept [THEN conjunct2, THEN conjunct2, THEN spec, THEN spec, THEN spec, THEN spec,
      THEN mp, OF this]
  have "\<exists>c \<in> set (calls_of s' s''). at c = 1 \<and> callee c = g" .
  with g(2) have "\<exists>c \<in> set (calls_of s' s''). at c = 1 \<and> name (callee c) = ''X''" by blast
  with v show ?thesis
    unfolding s s' s'' option.case by blast
qed

end
